theory Spec2Isabelle
  imports Main "HOL-Library.AList" "HOL-Library.Sublist"
begin

section \<open>LocalSearchServer: a shallow embedding of LocalSearch.js\<close>

text \<open>
  The theory follows \<^verbatim>\<open>src/tools/impl/web_search/LocalSearch.js\<close>. Its first part is
  the extraction pipeline (\<^verbatim>\<open>parseBingSearchResults\<close>, \<^verbatim>\<open>parseBaiduSearchResults\<close>)
  over the element tree that cheerio builds; the second part is the class
  \<^verbatim>\<open>LocalSearchServer\<close> run by one caller at a time; the third part cuts the same
  methods at their \<^verbatim>\<open>await\<close>s and interleaves several calls.
\<close>

subsection \<open>Strings\<close>

text \<open>
  A JavaScript string is a \<^typ>\<open>string\<close>: the bytes of its UTF-8 encoding (a string with
  a lone surrogate has none and is outside the model). The white space of \<^verbatim>\<open>trim\<close> and
  of \<^verbatim>\<open>\s\<close> is tab, line feed, vertical tab, form feed, carriage return, space, and
  U+00A0, U+1680, U+2000 to U+200A, U+2028, U+2029, U+202F, U+205F, U+3000, U+FEFF,
  which take two or three bytes.
\<close>

definition ascii_space :: "char \<Rightarrow> bool" where
  "ascii_space c = (c = CHR 0x09 \<or> c = CHR 0x0A \<or> c = CHR 0x0B \<or> c = CHR 0x0C
                    \<or> c = CHR 0x0D \<or> c = CHR 0x20)"

definition two_byte_space :: "char \<Rightarrow> char \<Rightarrow> bool" where
  "two_byte_space a b = (a = CHR 0xC2 \<and> b = CHR 0xA0)"

definition three_byte_space :: "char \<Rightarrow> char \<Rightarrow> char \<Rightarrow> bool" where
  "three_byte_space a b c =
     ((a = CHR 0xE1 \<and> b = CHR 0x9A \<and> c = CHR 0x80)
      \<or> (a = CHR 0xE2 \<and> b = CHR 0x80
          \<and> (((128::nat) \<le> of_char c \<and> of_char c \<le> (138::nat))
               \<or> c = CHR 0xA8 \<or> c = CHR 0xA9 \<or> c = CHR 0xAF))
      \<or> (a = CHR 0xE2 \<and> b = CHR 0x81 \<and> c = CHR 0x9F)
      \<or> (a = CHR 0xE3 \<and> b = CHR 0x80 \<and> c = CHR 0x80)
      \<or> (a = CHR 0xEF \<and> b = CHR 0xBB \<and> c = CHR 0xBF))"

text \<open>The number of bytes of the white space character a string starts with; 0 if it starts with none.\<close>

fun space_length :: "string \<Rightarrow> nat" where
  "space_length [] = 0"
| "space_length [a] = (if ascii_space a then 1 else 0)"
| "space_length [a, b] =
     (if ascii_space a then 1 else if two_byte_space a b then 2 else 0)"
| "space_length (a # b # c # s) =
     (if ascii_space a then 1 else if two_byte_space a b then 2
      else if three_byte_space a b c then 3 else 0)"

text \<open>The string without the white space at its start.\<close>

fun drop_spaces :: "string \<Rightarrow> string" where
  "drop_spaces [] = []"
| "drop_spaces (c # cs) =
     (if space_length (c # cs) = 0 then c # cs
      else drop_spaces (drop (space_length (c # cs) - 1) cs))"

text \<open>The string without the white space at its end: it is cut where only white space follows.\<close>

fun drop_spaces_end :: "string \<Rightarrow> string" where
  "drop_spaces_end [] = []"
| "drop_spaces_end (c # cs) =
     (if drop_spaces (c # cs) = [] then [] else c # drop_spaces_end cs)"

text \<open>\<^verbatim>\<open>s.trim()\<close>\<close>

definition trim :: "string \<Rightarrow> string" where
  "trim s = drop_spaces_end (drop_spaces s)"

text \<open>
  \<^verbatim>\<open>s.replace(/\s+/g, ' ')\<close>: every maximal run of white space becomes one space;
  \<open>in_run\<close> says that the character before was white space.
\<close>

fun collapse :: "bool \<Rightarrow> string \<Rightarrow> string" where
  "collapse in_run [] = []"
| "collapse in_run (c # cs) =
     (if space_length (c # cs) = 0 then c # collapse False cs
      else (if in_run then [] else [CHR 0x20])
           @ collapse True (drop (space_length (c # cs) - 1) cs))"

definition collapse_ws :: "string \<Rightarrow> string" where
  "collapse_ws s = collapse False s"

text \<open>\<^verbatim>\<open>xs.join(sep)\<close>\<close>

fun join :: "string \<Rightarrow> string list \<Rightarrow> string" where
  "join sep [] = []"
| "join sep [x] = x"
| "join sep (x # y # ys) = x @ sep @ join sep (y # ys)"

text \<open>The white-space separated tokens of a \<^verbatim>\<open>class\<close> attribute; \<open>acc\<close> is the token being read.\<close>

fun tokens :: "string \<Rightarrow> string \<Rightarrow> string list" where
  "tokens acc [] = (if acc = [] then [] else [acc])"
| "tokens acc (c # cs) =
     (if space_length (c # cs) = 0 then tokens (acc @ [c]) cs
      else (if acc = [] then [] else [acc])
           @ tokens [] (drop (space_length (c # cs) - 1) cs))"

text \<open>\<^verbatim>\<open>s.toLowerCase()\<close> on the ASCII letters.\<close>

definition lower_char :: "char \<Rightarrow> char" where
  "lower_char c =
     (if (65::nat) \<le> of_char c \<and> of_char c \<le> (90::nat)
      then char_of (of_char c + (32::nat)) else c)"

definition toLowerCase :: "string \<Rightarrow> string" where
  "toLowerCase s = map lower_char s"

text \<open>
  \<^verbatim>\<open>encodeURIComponent(s)\<close> on the UTF-8 bytes of \<open>s\<close>: the unreserved characters
  \<^verbatim>\<open>A-Z a-z 0-9 - _ . ! ~ * ' ( )\<close> stay, every other byte becomes \<^verbatim>\<open>%XX\<close>.
\<close>

definition unreserved :: "char \<Rightarrow> bool" where
  "unreserved c =
     (((65::nat) \<le> of_char c \<and> of_char c \<le> (90::nat))
      \<or> ((97::nat) \<le> of_char c \<and> of_char c \<le> (122::nat))
      \<or> ((48::nat) \<le> of_char c \<and> of_char c \<le> (57::nat))
      \<or> c \<in> set ''-_.!~*'' \<or> c = CHR 0x27 \<or> c = CHR ''('' \<or> c = CHR '')'')"

definition hex_digit :: "nat \<Rightarrow> char" where
  "hex_digit n = ''0123456789ABCDEF'' ! (n mod 16)"

definition encodeURIComponent :: "string \<Rightarrow> string" where
  "encodeURIComponent s =
     concat (map (\<lambda>c. if unreserved c then [c]
                       else [CHR ''%'', hex_digit (of_char c div 16), hex_digit (of_char c)]) s)"

subsection \<open>The element tree and the cheerio calls of the parsers\<close>

text \<open>
  A node of the tree \<^verbatim>\<open>cheerio.load(html)\<close> builds: a text node, or an element with its
  tag name, its attributes and its children in document order.
\<close>

datatype node = Text string | Element string "(string \<times> string) list" "node list"

text \<open>
  A compound selector such as \<^verbatim>\<open>li.b_algo\<close> or \<^verbatim>\<open>.b_caption\<close>: an optional tag name and
  the class names required. A selector of the source is a list of them, read with the
  descendant combinator: \<^verbatim>\<open>.b_dList .lisn_olitem span\<close> has three.
\<close>

datatype compound = Compound "string option" "string list"

fun attr_of :: "string \<Rightarrow> node \<Rightarrow> string option" where
  "attr_of name (Text t) = None"
| "attr_of name (Element tag attrs children) = map_of attrs name"

definition classes_of :: "node \<Rightarrow> string list" where
  "classes_of n = (case attr_of ''class'' n of None \<Rightarrow> [] | Some v \<Rightarrow> tokens [] v)"

fun matches :: "compound \<Rightarrow> node \<Rightarrow> bool" where
  "matches c (Text t) = False"
| "matches (Compound tg cls) (Element tag attrs children) =
     ((case tg of None \<Rightarrow> True | Some t \<Rightarrow> t = tag)
      \<and> (\<forall>c \<in> set cls. c \<in> set (classes_of (Element tag attrs children))))"

text \<open>
  \<open>select_nodes sel ns\<close>: the elements among \<open>ns\<close> and their descendants that match the
  last compound of \<open>sel\<close> and have, inside \<open>ns\<close>, ancestors matching the earlier compounds
  in order; document order. The first argument is the part of the selector still to be
  matched on the way down (an ancestor is used for the first compound it matches).
\<close>

fun select_node :: "compound list \<Rightarrow> node \<Rightarrow> node list"
  and select_nodes :: "compound list \<Rightarrow> node list \<Rightarrow> node list" where
  "select_node cs (Text t) = []"
| "select_node [] (Element tag attrs children) = []"
| "select_node [c] (Element tag attrs children) =
     (if matches c (Element tag attrs children) then [Element tag attrs children] else [])
     @ select_nodes [c] children"
| "select_node (c # d # ds) (Element tag attrs children) =
     select_nodes (if matches c (Element tag attrs children) then d # ds else c # d # ds)
       children"
| "select_nodes cs [] = []"
| "select_nodes cs (n # ns) = select_node cs n @ select_nodes cs ns"

text \<open>
  \<^verbatim>\<open>$element.find(selector)\<close>: the matching descendants of one element. The element
  itself is never among the matches, but it may be the ancestor that matches the first
  compound of a selector with several compounds; the ancestors above it do not count.
\<close>

fun find_in :: "compound list \<Rightarrow> node \<Rightarrow> node list" where
  "find_in sel (Text t) = []"
| "find_in [] (Element tag attrs children) = []"
| "find_in [c] (Element tag attrs children) = select_nodes [c] children"
| "find_in (c # d # ds) (Element tag attrs children) =
     select_nodes (if matches c (Element tag attrs children) then d # ds else c # d # ds)
       children"

text \<open>\<^verbatim>\<open>selection.text()\<close>: the text of every selected node with its descendants, concatenated.\<close>

fun text_node :: "node \<Rightarrow> string" and text_of :: "node list \<Rightarrow> string" where
  "text_node (Text t) = t"
| "text_node (Element tag attrs children) = text_of children"
| "text_of [] = []"
| "text_of (n # ns) = text_node n @ text_of ns"

text \<open>\<^verbatim>\<open>selection.attr(name)\<close>: the attribute of the first selected element, if any.\<close>

definition attr_first :: "string \<Rightarrow> node list \<Rightarrow> string option" where
  "attr_first name sel = (case sel of [] \<Rightarrow> None | n # ns \<Rightarrow> attr_of name n)"

text \<open>
  \<^verbatim>\<open>clone.find(c).remove()\<close> for a compound \<open>c\<close>: a copy of the node without its
  descendants that match \<open>c\<close>.
\<close>

fun remove_node :: "compound \<Rightarrow> node \<Rightarrow> node"
  and remove_nodes :: "compound \<Rightarrow> node list \<Rightarrow> node list" where
  "remove_node c (Text t) = Text t"
| "remove_node c (Element tag attrs children) = Element tag attrs (remove_nodes c children)"
| "remove_nodes c [] = []"
| "remove_nodes c (n # ns) =
     (if matches c n then [] else [remove_node c n]) @ remove_nodes c ns"

text \<open>A JavaScript string or \<^verbatim>\<open>undefined\<close> read as a condition.\<close>

definition truthy :: "string option \<Rightarrow> bool" where
  "truthy v = (case v of None \<Rightarrow> False | Some s \<Rightarrow> s \<noteq> [])"

subsection \<open>parseBingSearchResults and parseBaiduSearchResults\<close>

record search_result =
  url :: string
  title :: string
  content :: string

abbreviation "li_b_algo \<equiv> [Compound (Some ''li'') [''b_algo'']]"
abbreviation "h2_a \<equiv> [Compound (Some ''h2'') [], Compound (Some ''a'') []]"
abbreviation "p_b_lineclamp3 \<equiv> [Compound (Some ''p'') [''b_lineclamp3'']]"
abbreviation "span_news_dt \<equiv> Compound (Some ''span'') [''news_dt'']"
abbreviation "b_caption_p \<equiv> [Compound None [''b_caption''], Compound (Some ''p'') []]"
abbreviation "b_dList_items \<equiv>
  [Compound None [''b_dList''], Compound None [''lisn_olitem''], Compound (Some ''span'') []]"
abbreviation "div_result_c_container \<equiv> [Compound (Some ''div'') [''result'', ''c-container'']]"
abbreviation "h3_t_a \<equiv> [Compound (Some ''h3'') [''t''], Compound (Some ''a'') []]"
abbreviation "em \<equiv> Compound (Some ''em'') []"
abbreviation "span_content_right \<equiv> [Compound (Some ''span'') [''content-right_2s-H4'']]"

text \<open>
  Lines 106-111 and 116-121: the selected paragraphs are cloned, the \<^verbatim>\<open>span.news_dt\<close>
  descendants of the clones removed, and the text trimmed and normalised.
\<close>

definition stripped_text :: "node list \<Rightarrow> string" where
  "stripped_text contentElement =
     collapse_ws (trim (text_of (map (remove_node span_news_dt) contentElement)))"

text \<open>Line 130: \<^verbatim>\<open>$item.attr('title') || $item.text().trim()\<close>\<close>

definition item_text :: "node \<Rightarrow> string" where
  "item_text item =
     (if truthy (attr_of ''title'' item) then the (attr_of ''title'' item)
      else trim (text_node item))"

text \<open>Lines 126-135: the non-empty item texts, joined with one space.\<close>

definition list_text :: "node list \<Rightarrow> string" where
  "list_text listItems =
     collapse_ws (trim (join '' '' (filter (\<lambda>t. t \<noteq> []) (map item_text listItems))))"

text \<open>Lines 102-138: the content of one \<^verbatim>\<open>li.b_algo\<close> element.\<close>

definition bing_content :: "node \<Rightarrow> string" where
  "bing_content element =
     (if find_in p_b_lineclamp3 element \<noteq> [] then
        stripped_text (find_in p_b_lineclamp3 element)
      else if find_in b_caption_p element \<noteq> [] then
        stripped_text (find_in b_caption_p element)
      else if find_in b_dList_items element \<noteq> [] then
        list_text (find_in b_dList_items element)
      else [])"

definition bing_title :: "node \<Rightarrow> string" where
  "bing_title element = trim (text_of (find_in h2_a element))"

definition bing_url :: "node \<Rightarrow> string option" where
  "bing_url element = attr_first ''href'' (find_in h2_a element)"

text \<open>Lines 96-147: the body of the \<^verbatim>\<open>each\<close> callback; \<open>None\<close> when nothing is pushed.\<close>

definition bing_each :: "node \<Rightarrow> search_result option" where
  "bing_each element =
     (if bing_title element \<noteq> [] \<and> truthy (bing_url element) then
        Some \<lparr>url = the (bing_url element), title = bing_title element,
              content = bing_content element\<rparr>
      else None)"

text \<open>
  \<open>load\<close> is \<^verbatim>\<open>cheerio.load\<close>, the HTML parser of the cheerio library: it gives the
  top-level nodes of the document.
\<close>

definition parseBingSearchResults :: "(string \<Rightarrow> node list) \<Rightarrow> string \<Rightarrow> search_result list" where
  "parseBingSearchResults load html =
     List.map_filter bing_each (select_nodes li_b_algo (load html))"

definition baidu_title :: "node \<Rightarrow> string" where
  "baidu_title element = trim (text_of (map (remove_node em) (find_in h3_t_a element)))"

definition baidu_url :: "node \<Rightarrow> string option" where
  "baidu_url element = attr_first ''href'' (find_in h3_t_a element)"

definition baidu_content :: "node \<Rightarrow> string" where
  "baidu_content element = trim (text_of (find_in span_content_right element))"

text \<open>Lines 157-179.\<close>

definition baidu_each :: "node \<Rightarrow> search_result option" where
  "baidu_each element =
     (if baidu_title element \<noteq> [] \<and> truthy (baidu_url element) \<and> baidu_content element \<noteq> []
      then Some \<lparr>url = the (baidu_url element), title = baidu_title element,
                 content = baidu_content element\<rparr>
      else None)"

definition parseBaiduSearchResults :: "(string \<Rightarrow> node list) \<Rightarrow> string \<Rightarrow> search_result list" where
  "parseBaiduSearchResults load html =
     List.map_filter baidu_each (select_nodes div_result_c_container (load html))"

subsection \<open>The class LocalSearchServer, one call at a time\<close>

text \<open>A value thrown by the browser library.\<close>

datatype error = Error string

record response =
  query :: string
  results :: "search_result list"

text \<open>
  The fields of the class (lines 33-37); \<open>contexts\<close> is the \<^verbatim>\<open>Map\<close> in insertion order.
  A browser, a context and a page are objects of the playwright library; each is known
  by its identity, a number. The last four fields belong to that library, not to the
  class: \<open>created\<close> counts the objects made so far, so the next object gets an identity
  no earlier one has; \<open>visited\<close> lists the addresses given to \<^verbatim>\<open>page.goto\<close>; \<open>watched\<close> are
  the browsers that carry the \<^verbatim>\<open>disconnected\<close> listener of lines 53-56; \<open>listeners\<close> pairs
  each context that carries the \<^verbatim>\<open>close\<close> listener of lines 71-73 with the \<^verbatim>\<open>uid\<close> that
  listener deletes.
\<close>

record server =
  browser :: "nat option"
  contexts :: "(string \<times> nat) list"
  maxConcurrentPages :: int
  activePages :: int
  result :: "response option"
  created :: nat
  visited :: "string list"
  watched :: "nat list"
  listeners :: "(nat \<times> string) list"

definition new_server :: server where
  "new_server = \<lparr>browser = None, contexts = [], maxConcurrentPages = 10, activePages = 0,
                  result = None, created = 0, visited = [], watched = [], listeners = []\<rparr>"

text \<open>
  What the browser library answers to the calls of one method call: \<open>None\<close> when the
  awaited promise resolves, \<open>Some e\<close> when it rejects with \<open>e\<close>; \<^verbatim>\<open>page.content()\<close>
  resolves to the HTML text.
\<close>

record env =
  launch :: "error option"
  newContext :: "error option"
  newPage :: "error option"
  goto :: "string \<Rightarrow> error option"
  waitForTimeout :: "error option"
  page_content :: "error + string"
  page_close :: "error option"
  context_close :: "nat \<Rightarrow> error option"
  browser_close :: "error option"

text \<open>Lines 47-59. A method returns the value or the error thrown, and the fields after it.\<close>

definition initializeBrowser :: "env \<Rightarrow> server \<Rightarrow> (error + nat) \<times> server" where
  "initializeBrowser env s =
     (case browser s of
        None \<Rightarrow>
          (case launch env of
             Some e \<Rightarrow> (Inl e, s)
           | None \<Rightarrow>
               (Inr (created s),
                s\<lparr>browser := Some (created s), created := Suc (created s),
                  watched := created s # watched s\<rparr>))
      | Some b \<Rightarrow> (Inr b, s))"

text \<open>Lines 62-76.\<close>

definition getOrCreateContext :: "env \<Rightarrow> string \<Rightarrow> server \<Rightarrow> (error + nat) \<times> server" where
  "getOrCreateContext env uid s =
     (case map_of (contexts s) uid of
        Some context \<Rightarrow> (Inr context, s)
      | None \<Rightarrow>
          (case initializeBrowser env s of
             (Inl e, s1) \<Rightarrow> (Inl e, s1)
           | (Inr b, s1) \<Rightarrow>
               (case newContext env of
                  Some e \<Rightarrow> (Inl e, s1)
                | None \<Rightarrow>
                    (Inr (created s1),
                     s1\<lparr>contexts := AList.update uid (created s1) (contexts s1),
                        created := Suc (created s1),
                        listeners := (created s1, uid) # listeners s1\<rparr>))))"

text \<open>Further calls of \<^verbatim>\<open>getOrCreateContext\<close>, one after the other, whatever each returns.\<close>

fun calls :: "(env \<times> string) list \<Rightarrow> server \<Rightarrow> server" where
  "calls [] s = s"
| "calls ((env, uid) # rest) s = calls rest (snd (getOrCreateContext env uid s))"

text \<open>
  Lines 79-84, for a call that runs alone: nothing changes the counter while the loop
  sleeps, so the loop tests the same fields again; \<open>None\<close> is a call that never returns.
\<close>

partial_function (option) waitForPageSlot :: "server \<Rightarrow> server option" where
  "waitForPageSlot s =
     (if activePages s \<ge> maxConcurrentPages s then waitForPageSlot s
      else Some (s\<lparr>activePages := activePages s + 1\<rparr>))"

declare waitForPageSlot.simps [code]

text \<open>Lines 87-89.\<close>

definition releasePageSlot :: "server \<Rightarrow> server" where
  "releasePageSlot s = s\<lparr>activePages := activePages s - 1\<rparr>"

text \<open>
  Lines 191-203, the \<^verbatim>\<open>try\<close> block: the page (if \<^verbatim>\<open>newPage\<close> returned one), the HTML or the
  error thrown, and the fields.
\<close>

definition try_block :: "env \<Rightarrow> string \<Rightarrow> server \<Rightarrow> nat option \<times> (error + string) \<times> server" where
  "try_block env address s =
     (case newPage env of
        Some e \<Rightarrow> (None, Inl e, s)
      | None \<Rightarrow>
          (let page = created s;
               s1 = s\<lparr>created := Suc (created s), visited := visited s @ [address]\<rparr>
           in case goto env address of
                Some e \<Rightarrow> (Some page, Inl e, s1)
              | None \<Rightarrow>
                  (case waitForTimeout env of
                     Some e \<Rightarrow> (Some page, Inl e, s1)
                   | None \<Rightarrow> (Some page, page_content env, s1))))"

text \<open>
  Lines 204-207, the \<^verbatim>\<open>finally\<close> block, entered with the outcome \<open>r\<close> of the \<^verbatim>\<open>try\<close> block:
  an error thrown by \<^verbatim>\<open>page.close()\<close> replaces that outcome and leaves the block.
\<close>

definition finally_block ::
  "env \<Rightarrow> nat option \<Rightarrow> (error + string) \<Rightarrow> server \<Rightarrow> (error + string) \<times> server" where
  "finally_block env page r s =
     (case page of
        None \<Rightarrow> (r, releasePageSlot s)
      | Some p \<Rightarrow>
          (case page_close env of
             Some e \<Rightarrow> (Inl e, s)
           | None \<Rightarrow> (r, releasePageSlot s)))"

text \<open>Lines 185-208.\<close>

definition openUrlInSearchWindow ::
  "env \<Rightarrow> string \<Rightarrow> string \<Rightarrow> server \<Rightarrow> ((error + string) \<times> server) option" where
  "openUrlInSearchWindow env uid address s =
     (case waitForPageSlot s of
        None \<Rightarrow> None
      | Some s1 \<Rightarrow>
          (case getOrCreateContext env uid s1 of
             (Inl e, s2) \<Rightarrow> Some (Inl e, s2)
           | (Inr context, s2) \<Rightarrow>
               (case try_block env address s2 of
                  (page, r, s3) \<Rightarrow> Some (finally_block env page r s3))))"

text \<open>
  The \<^verbatim>\<open>options\<close> argument of \<^verbatim>\<open>search\<close>: \<open>None\<close> is a key that is not given. \<^verbatim>\<open>max_results\<close> is
  an integer of either sign.
\<close>

record options =
  opt_uid :: "string option"
  opt_max_results :: "int option"
  opt_engine :: "string option"

text \<open>\<^verbatim>\<open>xs.slice(0, n)\<close>: a negative \<open>n\<close> counts from the end of the array.\<close>

definition slice0 :: "'a list \<Rightarrow> int \<Rightarrow> 'a list" where
  "slice0 xs n = (if n < 0 then take (nat (int (length xs) + n)) xs else take (nat n) xs)"

text \<open>Lines 252-262: the given options over the defaults.\<close>

definition request_uid :: "options \<Rightarrow> string" where
  "request_uid opts = (case opt_uid opts of None \<Rightarrow> ''default'' | Some u \<Rightarrow> u)"

definition request_max_results :: "options \<Rightarrow> int" where
  "request_max_results opts = (case opt_max_results opts of None \<Rightarrow> 5 | Some n \<Rightarrow> n)"

definition request_engine :: "options \<Rightarrow> string" where
  "request_engine opts = (case opt_engine opts of None \<Rightarrow> ''bing'' | Some e \<Rightarrow> e)"

text \<open>Lines 264-287. The \<^verbatim>\<open>catch\<close> block writes to the console and throws the error again.\<close>

definition search ::
  "(string \<Rightarrow> node list) \<Rightarrow> env \<Rightarrow> string \<Rightarrow> options \<Rightarrow> server
     \<Rightarrow> ((error + response) \<times> server) option" where
  "search load env q opts s =
     (case
        (if toLowerCase (request_engine opts) = ''baidu'' then
           (case openUrlInSearchWindow env (request_uid opts)
                   (''https://www.baidu.com/s?wd='' @ encodeURIComponent q) s of
              None \<Rightarrow> None
            | Some (Inl e, s1) \<Rightarrow> Some (Inl e, s1)
            | Some (Inr html, s1) \<Rightarrow> Some (Inr (parseBaiduSearchResults load html), s1))
         else
           (case openUrlInSearchWindow env (request_uid opts)
                   (''https://www.bing.com/search?q='' @ encodeURIComponent q) s of
              None \<Rightarrow> None
            | Some (Inl e, s1) \<Rightarrow> Some (Inl e, s1)
            | Some (Inr html, s1) \<Rightarrow> Some (Inr (parseBingSearchResults load html), s1)))
      of
        None \<Rightarrow> None
      | Some (Inl e, s1) \<Rightarrow> Some (Inl e, s1)
      | Some (Inr rs, s1) \<Rightarrow>
          (let r = \<lparr>query = q, results = slice0 rs (request_max_results opts)\<rparr>
           in Some (Inr r, s1\<lparr>result := Some r\<rparr>)))"

text \<open>Lines 290-299.\<close>

definition formatContent :: "server \<Rightarrow> string" where
  "formatContent s =
     (case result s of
        None \<Rightarrow> []
      | Some r \<Rightarrow>
          ''Query: '' @ query r @ [CHR 0x0A]
          @ join (''======'' @ [CHR 0x0A] @ ''======'')
              (map (\<lambda>item. ''URL: '' @ url item @ [CHR 0x0A] @ ''Title: '' @ title item
                            @ [CHR 0x0A] @ ''content: '' @ content item @ [CHR 0x0A])
                 (results r)))"

text \<open>Lines 302-307.\<close>

definition formatJSON :: "server \<Rightarrow> search_result list" where
  "formatJSON s = (case result s of None \<Rightarrow> [] | Some r \<Rightarrow> results r)"

text \<open>Lines 71-73: the \<^verbatim>\<open>close\<close> listener of a context runs.\<close>

definition context_closed :: "nat \<Rightarrow> server \<Rightarrow> server" where
  "context_closed context s =
     (case map_of (listeners s) context of
        None \<Rightarrow> s
      | Some uid \<Rightarrow> s\<lparr>contexts := AList.delete uid (contexts s)\<rparr>)"

text \<open>Lines 53-56: the \<^verbatim>\<open>disconnected\<close> listener of a browser runs.\<close>

definition browser_disconnected :: "nat \<Rightarrow> server \<Rightarrow> server" where
  "browser_disconnected b s =
     (if b \<in> set (watched s) then s\<lparr>browser := None, contexts := []\<rparr> else s)"

text \<open>
  Lines 311-313: the loop over the values of the map, given as they are when the loop
  starts. A context that closes runs its listener, which deletes the entry of that
  context, so the values still to come stay; a \<^verbatim>\<open>close()\<close> that throws ends \<^verbatim>\<open>cleanup\<close>
  there.
\<close>

fun close_contexts :: "env \<Rightarrow> nat list \<Rightarrow> server \<Rightarrow> error option \<times> server" where
  "close_contexts env [] s = (None, s)"
| "close_contexts env (context # rest) s =
     (case context_close env context of
        Some e \<Rightarrow> (Some e, s)
      | None \<Rightarrow> close_contexts env rest (context_closed context s))"

text \<open>
  Lines 310-321; \<open>None\<close> when \<^verbatim>\<open>cleanup\<close> returns, \<open>Some e\<close> when it throws. A browser that
  closes runs the listener of lines 53-56.
\<close>

definition cleanup :: "env \<Rightarrow> server \<Rightarrow> error option \<times> server" where
  "cleanup env s =
     (case close_contexts env (map snd (contexts s)) s of
        (Some e, s1) \<Rightarrow> (Some e, s1)
      | (None, s1) \<Rightarrow>
          (case browser s1 of
             None \<Rightarrow> (None, s1\<lparr>contexts := [], activePages := 0, result := None\<rparr>)
           | Some b \<Rightarrow>
               (case browser_close env of
                  Some e \<Rightarrow> (Some e, s1)
                | None \<Rightarrow>
                    (None, (browser_disconnected b s1)
                             \<lparr>browser := None, contexts := [], activePages := 0,
                              result := None\<rparr>))))"

subsection \<open>Several calls of search, interleaved at their awaits\<close>

text \<open>
  JavaScript runs one call until its next \<^verbatim>\<open>await\<close>; there another call may continue.
  A call of \<^verbatim>\<open>search\<close> is therefore a task that stands at one of the awaits below, and
  a step runs one task from its await to the next one. The awaits of the source:
\<close>

datatype pc =
    Sleeping                     \<comment> \<open>line 81, the timer inside the loop of \<^verbatim>\<open>waitForPageSlot\<close>\<close>
  | Slot_taken                   \<comment> \<open>line 186, \<^verbatim>\<open>waitForPageSlot()\<close> has returned\<close>
  | Launching                    \<comment> \<open>line 49, \<^verbatim>\<open>chromium.launch\<close>\<close>
  | Have_browser nat             \<comment> \<open>line 65, \<^verbatim>\<open>initializeBrowser()\<close> has returned this browser\<close>
  | Creating_context             \<comment> \<open>line 66, \<^verbatim>\<open>browser.newContext\<close>\<close>
  | Have_context nat             \<comment> \<open>line 187, \<^verbatim>\<open>getOrCreateContext(uid)\<close> has returned this context\<close>
  | Opening_page                 \<comment> \<open>line 191, \<^verbatim>\<open>context.newPage()\<close>\<close>
  | Navigating nat               \<comment> \<open>line 192, \<^verbatim>\<open>page.goto\<close>, with the page\<close>
  | Settling nat                 \<comment> \<open>line 201, \<^verbatim>\<open>page.waitForTimeout\<close>\<close>
  | Reading nat                  \<comment> \<open>line 202, \<^verbatim>\<open>page.content()\<close>\<close>
  | Closing nat "error + string" \<comment> \<open>line 205, \<^verbatim>\<open>page.close()\<close>, with the outcome of the \<^verbatim>\<open>try\<close> block\<close>
  | Fetched string               \<comment> \<open>lines 269 and 274, the fetch has returned this HTML\<close>
  | Returned "error + response"  \<comment> \<open>\<^verbatim>\<open>search\<close> has returned or thrown\<close>

text \<open>
  How an awaited promise settles. Only \<^verbatim>\<open>page.content()\<close> resolves to a value that is
  used, the HTML text; elsewhere the text of \<open>Resolved\<close> is ignored.
\<close>

datatype outcome = Resolved string | Rejected error

record task =
  t_query :: string
  t_options :: options
  at :: pc

text \<open>Lines 80-83: the test of the loop, and the increment that follows it without an await.\<close>

definition loop_test :: "server \<Rightarrow> pc \<times> server" where
  "loop_test s =
     (if activePages s \<ge> maxConcurrentPages s then (Sleeping, s)
      else (Slot_taken, s\<lparr>activePages := activePages s + 1\<rparr>))"

definition extract_results :: "(string \<Rightarrow> node list) \<Rightarrow> options \<Rightarrow> string \<Rightarrow> search_result list" where
  "extract_results load opts html =
     (if toLowerCase (request_engine opts) = ''baidu'' then parseBaiduSearchResults load html
      else parseBingSearchResults load html)"

definition search_address :: "options \<Rightarrow> string \<Rightarrow> string" where
  "search_address opts q =
     (if toLowerCase (request_engine opts) = ''baidu''
      then ''https://www.baidu.com/s?wd='' @ encodeURIComponent q
      else ''https://www.bing.com/search?q='' @ encodeURIComponent q)"

text \<open>
  One task continues from its await with the outcome of the awaited promise, up to its
  next await; \<open>None\<close> when that promise cannot settle so (a timer and a method that has
  returned do not reject). An error passes through the awaits of the callers, which
  touch no field, in the same step.
\<close>

fun resume ::
  "(string \<Rightarrow> node list) \<Rightarrow> string \<Rightarrow> options \<Rightarrow> pc \<Rightarrow> outcome \<Rightarrow> server
     \<Rightarrow> (pc \<times> server) option" where
  "resume load q opts Sleeping (Resolved v) s = Some (loop_test s)"
| "resume load q opts Slot_taken (Resolved v) s =
     (case map_of (contexts s) (request_uid opts) of
        Some context \<Rightarrow> Some (Have_context context, s)
      | None \<Rightarrow>
          (case browser s of
             None \<Rightarrow> Some (Launching, s)
           | Some b \<Rightarrow> Some (Have_browser b, s)))"
| "resume load q opts Launching (Rejected e) s = Some (Returned (Inl e), s)"
| "resume load q opts Launching (Resolved v) s =
     Some (Have_browser (created s),
           s\<lparr>browser := Some (created s), created := Suc (created s),
             watched := created s # watched s\<rparr>)"
| "resume load q opts (Have_browser b) (Resolved v) s = Some (Creating_context, s)"
| "resume load q opts Creating_context (Rejected e) s = Some (Returned (Inl e), s)"
| "resume load q opts Creating_context (Resolved v) s =
     Some (Have_context (created s),
           s\<lparr>contexts := AList.update (request_uid opts) (created s) (contexts s),
             created := Suc (created s),
             listeners := (created s, request_uid opts) # listeners s\<rparr>)"
| "resume load q opts (Have_context context) (Resolved v) s = Some (Opening_page, s)"
| "resume load q opts Opening_page (Rejected e) s = Some (Returned (Inl e), releasePageSlot s)"
| "resume load q opts Opening_page (Resolved v) s =
     Some (Navigating (created s),
           s\<lparr>created := Suc (created s), visited := visited s @ [search_address opts q]\<rparr>)"
| "resume load q opts (Navigating page) (Rejected e) s = Some (Closing page (Inl e), s)"
| "resume load q opts (Navigating page) (Resolved v) s = Some (Settling page, s)"
| "resume load q opts (Settling page) (Rejected e) s = Some (Closing page (Inl e), s)"
| "resume load q opts (Settling page) (Resolved v) s = Some (Reading page, s)"
| "resume load q opts (Reading page) (Rejected e) s = Some (Closing page (Inl e), s)"
| "resume load q opts (Reading page) (Resolved html) s = Some (Closing page (Inr html), s)"
| "resume load q opts (Closing page r) (Rejected e) s = Some (Returned (Inl e), s)"
| "resume load q opts (Closing page (Inl e)) (Resolved v) s =
     Some (Returned (Inl e), releasePageSlot s)"
| "resume load q opts (Closing page (Inr html)) (Resolved v) s =
     Some (Fetched html, releasePageSlot s)"
| "resume load q opts (Fetched html) (Resolved v) s =
     (let r = \<lparr>query = q,
                results = slice0 (extract_results load opts html) (request_max_results opts)\<rparr>
      in Some (Returned (Inr r), s\<lparr>result := Some r\<rparr>))"
| "resume load q opts p out s = None"

text \<open>
  What can happen next: a caller calls \<^verbatim>\<open>search\<close>, the promise that task \<open>i\<close> awaits
  settles, a context closes, a browser disconnects.
\<close>

datatype event =
    Call string options
  | Settle nat outcome
  | Context_closed nat
  | Disconnected nat

record system =
  server_of :: server
  tasks :: "task list"

definition start :: system where
  "start = \<lparr>server_of = new_server, tasks = []\<rparr>"

fun step :: "(string \<Rightarrow> node list) \<Rightarrow> event \<Rightarrow> system \<Rightarrow> system" where
  "step load (Call q opts) sys =
     (case loop_test (server_of sys) of
        (p, s) \<Rightarrow> sys\<lparr>server_of := s, tasks := tasks sys @ [\<lparr>t_query = q, t_options = opts, at = p\<rparr>]\<rparr>)"
| "step load (Settle i out) sys =
     (if i < length (tasks sys) then
        (case resume load (t_query (tasks sys ! i)) (t_options (tasks sys ! i))
                (at (tasks sys ! i)) out (server_of sys) of
           None \<Rightarrow> sys
         | Some (p, s) \<Rightarrow> sys\<lparr>server_of := s, tasks := (tasks sys)[i := (tasks sys ! i)\<lparr>at := p\<rparr>]\<rparr>)
      else sys)"
| "step load (Context_closed context) sys = sys\<lparr>server_of := context_closed context (server_of sys)\<rparr>"
| "step load (Disconnected b) sys = sys\<lparr>server_of := browser_disconnected b (server_of sys)\<rparr>"

definition run :: "(string \<Rightarrow> node list) \<Rightarrow> event list \<Rightarrow> system \<Rightarrow> system" where
  "run load evs sys = foldl (\<lambda>sys ev. step load ev sys) sys evs"

text \<open>The awaits between line 83 and line 206: the task has taken a slot and not released it.\<close>

fun holds_slot :: "pc \<Rightarrow> bool" where
  "holds_slot Sleeping = False"
| "holds_slot (Fetched html) = False"
| "holds_slot (Returned r) = False"
| "holds_slot p = True"

text \<open>The awaits between line 191 and line 205: the task has a page open.\<close>

fun has_page :: "pc \<Rightarrow> bool" where
  "has_page (Navigating page) = True"
| "has_page (Settling page) = True"
| "has_page (Reading page) = True"
| "has_page (Closing page r) = True"
| "has_page p = False"

definition slots_held :: "system \<Rightarrow> int" where
  "slots_held sys = int (length (filter (\<lambda>t. holds_slot (at t)) (tasks sys)))"

definition pages_open :: "system \<Rightarrow> int" where
  "pages_open sys = int (length (filter (\<lambda>t. has_page (at t)) (tasks sys)))"

subsection \<open>Invariants of the interleaved calls\<close>

definition one_if :: "bool \<Rightarrow> int" where
  "one_if b = (if b then 1 else 0)"

text \<open>The counter covers the slots held and stays under the ceiling.\<close>

definition slot_invariant :: "system \<Rightarrow> bool" where
  "slot_invariant sys =
     (slots_held sys \<le> activePages (server_of sys)
      \<and> activePages (server_of sys) \<le> maxConcurrentPages (server_of sys))"

text \<open>
  The map has one entry for a \<^verbatim>\<open>uid\<close>; every context that has a listener was created
  earlier; a context stored under a \<^verbatim>\<open>uid\<close> has the listener for that \<^verbatim>\<open>uid\<close>.
\<close>

definition server_ok :: "server \<Rightarrow> bool" where
  "server_ok s =
     (distinct (map fst (contexts s))
      \<and> (\<forall>c u. map_of (listeners s) c = Some u \<longrightarrow> c < created s)
      \<and> (\<forall>u c. map_of (contexts s) u = Some c \<longrightarrow> map_of (listeners s) c = Some u))"

text \<open>The context that \<^verbatim>\<open>getOrCreateContext\<close> returned to a task was created for the task's \<^verbatim>\<open>uid\<close>.\<close>

definition task_ok :: "server \<Rightarrow> task \<Rightarrow> bool" where
  "task_ok s t =
     (\<forall>c. at t = Have_context c \<longrightarrow> map_of (listeners s) c = Some (request_uid (t_options t)))"

definition registry_invariant :: "system \<Rightarrow> bool" where
  "registry_invariant sys =
     (server_ok (server_of sys) \<and> (\<forall>t \<in> set (tasks sys). task_ok (server_of sys) t))"

subsection \<open>Documents, environments and requests used as examples\<close>

text \<open>An environment in which every promise resolves; the page has the given HTML.\<close>

definition quiet :: "string \<Rightarrow> env" where
  "quiet html = \<lparr>launch = None, newContext = None, newPage = None, goto = (\<lambda>a. None),
                 waitForTimeout = None, page_content = Inr html, page_close = None,
                 context_close = (\<lambda>c. None), browser_close = None\<rparr>"

text \<open>A \<^verbatim>\<open>li.b_algo\<close> element with a title, a link and further children.\<close>

definition bing_container :: "string \<Rightarrow> string \<Rightarrow> node list \<Rightarrow> node" where
  "bing_container t href rest =
     Element ''li'' [(''class'', ''b_algo'')]
       (Element ''h2'' [] [Element ''a'' [(''href'', href)] [Text t]] # rest)"

definition clamped :: node where
  "clamped = bing_container ''First'' ''https://a.example/''
     [Element ''div'' [(''class'', ''b_caption'')]
        [Element ''p'' [(''class'', ''b_lineclamp3'')]
           [Element ''span'' [(''class'', ''news_dt'')] [Text ''2025-05-13''],
            Text '' clamped   text ''],
         Element ''p'' [] [Text ''caption text'']]]"

definition listed :: node where
  "listed = bing_container ''Second'' ''https://b.example/''
     [Element ''div'' [(''class'', ''b_dList'')]
        [Element ''li'' [(''class'', ''lisn_olitem'')]
           [Element ''span'' [(''title'', ''full text of one'')] [Text ''full...'']],
         Element ''li'' [(''class'', ''lisn_olitem'')]
           [Element ''span'' [] [Text '' two '']]]]"

definition captioned :: node where
  "captioned = bing_container ''Sixth'' ''https://f.example/''
     [Element ''div'' [(''class'', ''b_caption'')]
        [Element ''p'' []
           [Element ''span'' [(''class'', ''news_dt'')] [Text ''May 13''],
            Text '' caption   only'']]]"

text \<open>The container itself has the class \<^verbatim>\<open>b_caption\<close>.\<close>

definition own_caption :: node where
  "own_caption =
     Element ''li'' [(''class'', ''b_algo b_caption'')]
       [Element ''h2'' [] [Element ''a'' [(''href'', ''https://g.example/'')] [Text ''Seventh'']],
        Element ''p'' [] [Text ''own caption'']]"

definition bare :: node where
  "bare = bing_container ''Third'' ''https://c.example/'' []"

definition fixture :: "node list" where
  "fixture = [Element ''ol'' [(''id'', ''b_results'')] [clamped, listed, bare]]"

text \<open>The clamped paragraph holds a time stamp only; the caption paragraph has text.\<close>

definition timestamp_only :: node where
  "timestamp_only = bing_container ''Fourth'' ''https://d.example/''
     [Element ''p'' [(''class'', ''b_lineclamp3'')]
        [Element ''span'' [(''class'', ''news_dt'')] [Text ''2025-05-13'']],
      Element ''div'' [(''class'', ''b_caption'')] [Element ''p'' [] [Text ''caption text'']]]"

text \<open>A \<^verbatim>\<open>div.result.c-container\<close> element with a title, a link and further children.\<close>

definition baidu_container :: "node list \<Rightarrow> node" where
  "baidu_container rest =
     Element ''div'' [(''class'', ''result c-container'')]
       (Element ''h3'' [(''class'', ''t'')]
          [Element ''a'' [(''href'', ''https://e.example/'')]
             [Element ''em'' [] [Text ''hit''], Text '' Fifth'']] # rest)"

text \<open>A content span that holds U+3000 and U+00A0 only.\<close>

definition blank_content :: node where
  "blank_content =
     baidu_container
       [Element ''span'' [(''class'', ''content-right_2s-H4'')]
          [Text [CHR 0xE3, CHR 0x80, CHR 0x80, CHR 0xC2, CHR 0xA0]]]"

definition request :: options where
  "request = \<lparr>opt_uid = Some ''u1'', opt_max_results = Some 2,
               opt_engine = Some ''PrimaryEngine''\<rparr>"

definition defaults :: options where
  "defaults = \<lparr>opt_uid = None, opt_max_results = None, opt_engine = None\<rparr>"

definition first_two :: response where
  "first_two = \<lparr>query = ''test topic'',
     results = [\<lparr>url = ''https://a.example/'', title = ''First'', content = ''clamped text''\<rparr>,
                \<lparr>url = ''https://b.example/'', title = ''Second'',
                 content = ''full text of one two''\<rparr>]\<rparr>"

definition after_first_search :: server where
  "after_first_search =
     \<lparr>browser = Some 0, contexts = [(''u1'', 1)], maxConcurrentPages = 10, activePages = 0,
      result = Some first_two, created = 3,
      visited = [''https://www.bing.com/search?q=test%20topic''], watched = [0],
      listeners = [(1, ''u1'')]\<rparr>"

subsection \<open>The content tiers of parseBingSearchResults\<close>

text \<open>What each tier of lines 104-136 reads from a container.\<close>

definition tier_a :: "node \<Rightarrow> string" where
  "tier_a element = stripped_text (find_in p_b_lineclamp3 element)"

definition tier_b :: "node \<Rightarrow> string" where
  "tier_b element = stripped_text (find_in b_caption_p element)"

definition tier_c :: "node \<Rightarrow> string" where
  "tier_c element = list_text (find_in b_dList_items element)"

text \<open>
  The fallback in the words of the specification: the tiers are attempted in order
  until one yields non-empty text.
\<close>

definition spec_bing_content :: "node \<Rightarrow> string" where
  "spec_bing_content element =
     (if tier_a element \<noteq> [] then tier_a element
      else if tier_b element \<noteq> [] then tier_b element
      else tier_c element)"

text \<open>
  The amended fallback in words of its own. Reading the text of a node while skipping
  every descendant that matches a compound:
\<close>

fun text_skipping_node :: "compound \<Rightarrow> node \<Rightarrow> string"
  and text_skipping :: "compound \<Rightarrow> node list \<Rightarrow> string" where
  "text_skipping_node c (Text t) = t"
| "text_skipping_node c (Element tag attrs children) = text_skipping c children"
| "text_skipping c [] = []"
| "text_skipping c (n # ns) =
     (if matches c n then [] else text_skipping_node c n) @ text_skipping c ns"

text \<open>The text of the selected paragraphs, any time-stamp span inside them left out.\<close>

definition read_without_timestamps :: "node list \<Rightarrow> string" where
  "read_without_timestamps paragraphs =
     concat (map (text_skipping_node span_news_dt) paragraphs)"

text \<open>The \<^verbatim>\<open>title\<close> attribute of an item if it is set and not empty, else its trimmed text.\<close>

definition preferred_text :: "node \<Rightarrow> string" where
  "preferred_text item =
     (case attr_of ''title'' item of
        None \<Rightarrow> trim (text_node item)
      | Some t \<Rightarrow> if t = [] then trim (text_node item) else t)"

text \<open>The texts with a single space between each two.\<close>

fun spaced :: "string list \<Rightarrow> string" where
  "spaced [] = []"
| "spaced (t # ts) = t @ concat (map (\<lambda>u. CHR 0x20 # u) ts)"

text \<open>
  The first tier whose node is present in the container gives the content, which is
  trimmed and has its white space collapsed.
\<close>

definition content_by_presence :: "node \<Rightarrow> string" where
  "content_by_presence element =
     (case find_in p_b_lineclamp3 element of
        p # ps \<Rightarrow> collapse_ws (trim (read_without_timestamps (p # ps)))
      | [] \<Rightarrow>
          (case find_in b_caption_p element of
             p # ps \<Rightarrow> collapse_ws (trim (read_without_timestamps (p # ps)))
           | [] \<Rightarrow>
               collapse_ws (trim (spaced (filter (\<lambda>t. t \<noteq> [])
                  (map preferred_text (find_in b_dList_items element)))))))"

subsection \<open>A call that runs alone through its awaits\<close>

text \<open>
  The outcome the environment of one call gives to the promise awaited at each place,
  and the task continued \<open>n\<close> times with these outcomes.
\<close>

definition settled :: "error option \<Rightarrow> outcome" where
  "settled r = (case r of None \<Rightarrow> Resolved [] | Some e \<Rightarrow> Rejected e)"

fun answer :: "env \<Rightarrow> string \<Rightarrow> pc \<Rightarrow> outcome" where
  "answer env a Launching = settled (launch env)"
| "answer env a Creating_context = settled (newContext env)"
| "answer env a Opening_page = settled (newPage env)"
| "answer env a (Navigating page) = settled (goto env a)"
| "answer env a (Settling page) = settled (waitForTimeout env)"
| "answer env a (Reading page) =
     (case page_content env of Inl e \<Rightarrow> Rejected e | Inr html \<Rightarrow> Resolved html)"
| "answer env a (Closing page r) = settled (page_close env)"
| "answer env a p = Resolved []"

fun lone ::
  "(string \<Rightarrow> node list) \<Rightarrow> env \<Rightarrow> string \<Rightarrow> options \<Rightarrow> nat \<Rightarrow> pc \<times> server \<Rightarrow> pc \<times> server" where
  "lone load env q opts 0 ps = ps"
| "lone load env q opts (Suc n) (p, s) =
     (case resume load q opts p (answer env (search_address opts q) p) s of
        None \<Rightarrow> (p, s)
      | Some ps \<Rightarrow> lone load env q opts n ps)"

definition after_fetch ::
  "(string \<Rightarrow> node list) \<Rightarrow> string \<Rightarrow> options \<Rightarrow> (error + string) \<times> server \<Rightarrow> pc \<times> server" where
  "after_fetch load q opts xs =
     (case xs of
        (Inl e, s) \<Rightarrow> (Returned (Inl e), s)
      | (Inr html, s) \<Rightarrow>
          (Returned (Inr \<lparr>query = q,
              results = slice0 (extract_results load opts html) (request_max_results opts)\<rparr>),
           s\<lparr>result := Some \<lparr>query = q,
              results = slice0 (extract_results load opts html) (request_max_results opts)\<rparr>\<rparr>))"

subsection \<open>Schedules and states used as examples\<close>

definition no_document :: "string \<Rightarrow> node list" where
  "no_document html = []"

definition as_user :: "string \<Rightarrow> options" where
  "as_user uid = \<lparr>opt_uid = Some uid, opt_max_results = None, opt_engine = None\<rparr>"

text \<open>
  Two calls for the same \<^verbatim>\<open>uid\<close> on a new instance, continued in turn: both find no
  context and no browser, both launch a browser, both create a context.
\<close>

definition same_uid_race :: "event list" where
  "same_uid_race =
     [Call ''a'' (as_user ''u''), Call ''b'' (as_user ''u''),
      Settle 0 (Resolved []), Settle 1 (Resolved []),
      Settle 0 (Resolved []), Settle 1 (Resolved []),
      Settle 0 (Resolved []), Settle 1 (Resolved []),
      Settle 0 (Resolved []), Settle 1 (Resolved [])]"

text \<open>
  Two calls for different \<^verbatim>\<open>uid\<close>s: the first is continued until \<^verbatim>\<open>getOrCreateContext\<close>
  has returned its context; then it opens its page, and the second is continued until
  it has its context.
\<close>

definition first_user :: "event list" where
  "first_user =
     [Call ''a'' (as_user ''u1''), Call ''b'' (as_user ''u2''),
      Settle 0 (Resolved []), Settle 0 (Resolved []), Settle 0 (Resolved []),
      Settle 0 (Resolved [])]"

definition second_user :: "event list" where
  "second_user =
     [Settle 0 (Resolved []), Settle 0 (Resolved []),
      Settle 1 (Resolved []), Settle 1 (Resolved []), Settle 1 (Resolved [])]"

definition one_session :: server where
  "one_session = new_server\<lparr>browser := Some 0, contexts := [(''u1'', 1)], created := 2,
                              watched := [0], listeners := [(1, ''u1'')]\<rparr>"

definition two_sessions :: server where
  "two_sessions = one_session\<lparr>contexts := [(''u1'', 1), (''u2'', 2)], created := 3,
                               listeners := [(2, ''u2''), (1, ''u1'')]\<rparr>"

text \<open>An environment in which no browser and no context can be made.\<close>

definition failing :: env where
  "failing = (quiet [])\<lparr>launch := Some (Error ''launch failed''),
                        newContext := Some (Error ''no context'')\<rparr>"

section \<open>Properties\<close>

subsection \<open>The parsers\<close>

lemma stripped_text_Nil: "stripped_text [] = []"
  by (simp add: stripped_text_def trim_def collapse_ws_def)

lemma list_text_Nil: "list_text [] = []"
  by (simp add: list_text_def trim_def collapse_ws_def)

text \<open>
  Claim C4 as stated says that the three tiers are attempted in order until one yields
  non-empty text. In a container whose clamped paragraph holds a time stamp only and
  whose caption paragraph has text, the source takes the clamped paragraph, which
  yields the empty string, and does not go on to the caption paragraph.
\<close>

theorem bing_content_not_by_text:
  "bing_content timestamp_only = [] \<and> spec_bing_content timestamp_only = ''caption text''"
  by code_simp

lemma text_remove:
  "text_node (remove_node c n) = text_skipping_node c n"
  "text_of (remove_nodes c ns) = text_skipping c ns"
  by (induction c n and c ns rule: remove_node_remove_nodes.induct) simp_all

lemma text_of_map_remove:
  "text_of (map (remove_node c) ns) = concat (map (text_skipping_node c) ns)"
  by (induction ns) (simp_all add: text_remove)

lemma text_skipping_append:
  "text_skipping c (ms @ ns) = text_skipping c ms @ text_skipping c ns"
  by (induction ms) simp_all

lemma text_skipping_none:
  "select_node [c] n = [] \<Longrightarrow> text_skipping_node c n = text_node n"
  "select_nodes [c] ns = [] \<Longrightarrow> text_skipping c ns = text_of ns"
proof (induction c n and c ns rule: text_skipping_node_text_skipping.induct)
  case (4 c n ns)
  from 4(3) have n: "select_node [c] n = []" and ns: "select_nodes [c] ns = []" by simp_all
  from n have "\<not> matches c n" by (cases n) (auto split: if_splits)
  with 4(1) [OF this n] 4(2) [OF ns] show ?case by simp
qed (auto split: if_splits)

lemma read_without_timestamps_none:
  assumes "\<forall>p \<in> set paragraphs. find_in [span_news_dt] p = []"
  shows "read_without_timestamps paragraphs = text_of paragraphs"
  using assms
proof (induction paragraphs)
  case Nil
  then show ?case by (simp add: read_without_timestamps_def)
next
  case (Cons p ps)
  from Cons.prems have p: "find_in [span_news_dt] p = []" by simp
  have "text_skipping_node span_news_dt p = text_node p"
  proof (cases p)
    case (Text t)
    then show ?thesis by simp
  next
    case (Element tag attrs children)
    with p show ?thesis by (simp add: text_skipping_none)
  qed
  with Cons show ?case by (simp add: read_without_timestamps_def)
qed

lemma read_without_timestamps_stamp:
  assumes "matches span_news_dt stamp"
  shows "read_without_timestamps [Element tag attrs (before @ stamp # rest)]
           = read_without_timestamps [Element tag attrs (before @ rest)]"
  using assms by (simp add: read_without_timestamps_def text_skipping_append)

lemma stripped_text_read:
  "stripped_text ns = collapse_ws (trim (read_without_timestamps ns))"
  by (simp add: stripped_text_def read_without_timestamps_def text_of_map_remove)

lemma join_spaced: "join '' '' ts = spaced ts"
  by (induction "'' ''" ts rule: join.induct) simp_all

lemma item_text_preferred: "item_text item = preferred_text item"
  by (simp add: item_text_def preferred_text_def truthy_def split: option.splits)

lemma list_text_spaced:
  "list_text items
     = collapse_ws (trim (spaced (filter (\<lambda>t. t \<noteq> []) (map preferred_text items))))"
proof -
  have "item_text = preferred_text"
    by (rule ext) (rule item_text_preferred)
  then show ?thesis by (simp add: list_text_def join_spaced)
qed

lemma normalise_Nil: "collapse_ws (trim []) = []"
  by (simp add: trim_def collapse_ws_def)

text \<open>
  Claim C4, amended: the content comes from the first tier, in the order (a) clamped
  paragraph, (b) caption paragraph, (c) list items, whose node is present in the
  container, whether or not it yields text, so a present tier (a) is chosen over (b)
  and (c). Tiers (a) and (b) read the text of the paragraphs with every time-stamp span
  inside them left out (such a span adds nothing to what is read, and paragraphs
  without one are read as they are); tier (c) takes of each item the \<^verbatim>\<open>title\<close> attribute if that is set
  and not empty, else the trimmed text, and puts a single space between the non-empty
  ones. The result is that of the fallback on non-empty text whenever the present tier
  (a), or without it the present tier (b), yields non-empty text.
\<close>

theorem bing_content_by_presence:
  "bing_content element = content_by_presence element
   \<and> (find_in p_b_lineclamp3 element \<noteq> [] \<longrightarrow>
        bing_content element
          = collapse_ws (trim (read_without_timestamps (find_in p_b_lineclamp3 element))))
   \<and> (find_in p_b_lineclamp3 element = [] \<and> find_in b_caption_p element \<noteq> [] \<longrightarrow>
        bing_content element
          = collapse_ws (trim (read_without_timestamps (find_in b_caption_p element))))
   \<and> (find_in p_b_lineclamp3 element = [] \<and> find_in b_caption_p element = [] \<longrightarrow>
        bing_content element
          = collapse_ws (trim (spaced (filter (\<lambda>t. t \<noteq> [])
              (map preferred_text (find_in b_dList_items element))))))
   \<and> ((find_in p_b_lineclamp3 element \<noteq> [] \<longrightarrow> tier_a element \<noteq> [])
        \<and> (find_in p_b_lineclamp3 element = [] \<and> find_in b_caption_p element \<noteq> []
             \<longrightarrow> tier_b element \<noteq> [])
        \<longrightarrow> bing_content element = spec_bing_content element)
   \<and> ((\<forall>p \<in> set paragraphs. find_in [span_news_dt] p = []) \<longrightarrow>
        read_without_timestamps paragraphs = text_of paragraphs)
   \<and> (matches span_news_dt stamp \<longrightarrow>
        read_without_timestamps [Element tag attrs (before @ stamp # rest)]
          = read_without_timestamps [Element tag attrs (before @ rest)])"
proof -
  have a: "bing_content element
          = collapse_ws (trim (read_without_timestamps (find_in p_b_lineclamp3 element)))"
    if "find_in p_b_lineclamp3 element \<noteq> []"
    using that by (simp add: bing_content_def stripped_text_read)
  have b: "bing_content element
          = collapse_ws (trim (read_without_timestamps (find_in b_caption_p element)))"
    if "find_in p_b_lineclamp3 element = []" "find_in b_caption_p element \<noteq> []"
    using that by (simp add: bing_content_def stripped_text_read)
  have c: "bing_content element
          = collapse_ws (trim (spaced (filter (\<lambda>t. t \<noteq> [])
              (map preferred_text (find_in b_dList_items element)))))"
    if "find_in p_b_lineclamp3 element = []" "find_in b_caption_p element = []"
    using that by (simp add: bing_content_def list_text_spaced normalise_Nil)
  have same: "bing_content element = content_by_presence element"
    using a b c unfolding content_by_presence_def
    by (cases "find_in p_b_lineclamp3 element"; cases "find_in b_caption_p element") simp_all
  have agree: "bing_content element = spec_bing_content element"
    if "find_in p_b_lineclamp3 element \<noteq> [] \<longrightarrow> tier_a element \<noteq> []"
      "find_in p_b_lineclamp3 element = [] \<and> find_in b_caption_p element \<noteq> []
             \<longrightarrow> tier_b element \<noteq> []"
    using that
    by (auto simp: bing_content_def spec_bing_content_def tier_a_def tier_b_def tier_c_def
                   stripped_text_Nil list_text_Nil)
  from a b c same agree read_without_timestamps_none [of paragraphs]
    read_without_timestamps_stamp [of stamp tag attrs before rest]
  show ?thesis by blast
qed

theorem bing_content_by_presence_witness:
  "find_in p_b_lineclamp3 clamped \<noteq> [] \<and> find_in b_caption_p clamped \<noteq> []
   \<and> read_without_timestamps (find_in p_b_lineclamp3 clamped) = '' clamped   text ''
   \<and> bing_content clamped = ''clamped text''
   \<and> bing_content clamped = spec_bing_content clamped
   \<and> find_in p_b_lineclamp3 captioned = [] \<and> find_in b_caption_p captioned \<noteq> []
   \<and> bing_content captioned = ''caption only''
   \<and> bing_content captioned = spec_bing_content captioned
   \<and> find_in p_b_lineclamp3 own_caption = [] \<and> find_in b_caption_p own_caption \<noteq> []
   \<and> bing_content own_caption = ''own caption''
   \<and> find_in b_caption_p own_caption = [Element ''p'' [] [Text ''own caption'']]
   \<and> find_in [span_news_dt] (Element ''p'' [] [Text ''own caption'']) = []
   \<and> read_without_timestamps (find_in b_caption_p own_caption) = ''own caption''
   \<and> matches span_news_dt (Element ''span'' [(''class'', ''news_dt'')] [Text ''May 13''])
   \<and> read_without_timestamps
         [Element ''p'' [] [Element ''span'' [(''class'', ''news_dt'')] [Text ''May 13''],
                            Text '' caption   only'']]
       = read_without_timestamps [Element ''p'' [] [Text '' caption   only'']]
   \<and> find_in p_b_lineclamp3 listed = [] \<and> find_in b_caption_p listed = []
   \<and> map preferred_text (find_in b_dList_items listed) = [''full text of one'', ''two'']
   \<and> bing_content listed = ''full text of one two''"
proof -
  have a: "find_in p_b_lineclamp3 clamped \<noteq> []" by code_simp
  have b: "find_in b_caption_p clamped \<noteq> []" by code_simp
  have ra: "read_without_timestamps (find_in p_b_lineclamp3 clamped) = '' clamped   text ''"
    by code_simp
  have na: "collapse_ws (trim '' clamped   text '') = ''clamped text''" by code_simp
  have ta: "tier_a clamped \<noteq> []" by code_simp
  from bing_content_by_presence [of clamped "[]" "Text []" "[]" "[]" "[]" "[]"] a ra na ta
  have 1: "bing_content clamped = ''clamped text''"
    and 2: "bing_content clamped = spec_bing_content clamped" by auto
  have ca: "find_in p_b_lineclamp3 captioned = []" by code_simp
  have cb: "find_in b_caption_p captioned \<noteq> []" by code_simp
  have rb: "collapse_ws (trim (read_without_timestamps (find_in b_caption_p captioned)))
              = ''caption only''" by code_simp
  have tb: "tier_b captioned \<noteq> []" by code_simp
  from bing_content_by_presence [of captioned "[]" "Text []" "[]" "[]" "[]" "[]"] ca cb rb tb
  have 3: "bing_content captioned = ''caption only''"
    and 4: "bing_content captioned = spec_bing_content captioned" by auto
  have oa: "find_in p_b_lineclamp3 own_caption = []" by code_simp
  have ob: "find_in b_caption_p own_caption \<noteq> []" by code_simp
  have ro: "collapse_ws (trim (read_without_timestamps (find_in b_caption_p own_caption)))
              = ''own caption''" by code_simp
  have found: "find_in b_caption_p own_caption = [Element ''p'' [] [Text ''own caption'']]"
    by code_simp
  have unstamped: "find_in [span_news_dt] (Element ''p'' [] [Text ''own caption'']) = []"
    by code_simp
  from found unstamped
  have none: "\<forall>p \<in> set (find_in b_caption_p own_caption). find_in [span_news_dt] p = []"
    by simp
  have plain: "text_of (find_in b_caption_p own_caption) = ''own caption''" by code_simp
  from bing_content_by_presence [of own_caption "find_in b_caption_p own_caption"
      "Text []" "[]" "[]" "[]" "[]"] oa ob ro none plain
  have 5: "bing_content own_caption = ''own caption''"
    and 7: "read_without_timestamps (find_in b_caption_p own_caption) = ''own caption''"
    by auto
  have stamp: "matches span_news_dt (Element ''span'' [(''class'', ''news_dt'')] [Text ''May 13''])"
    by code_simp
  from bing_content_by_presence [of own_caption "[]"
      "Element ''span'' [(''class'', ''news_dt'')] [Text ''May 13'']" "''p''" "[]" "[]"
      "[Text '' caption   only'']"] stamp
  have 8: "read_without_timestamps
             [Element ''p'' [] [Element ''span'' [(''class'', ''news_dt'')] [Text ''May 13''],
                                Text '' caption   only'']]
           = read_without_timestamps [Element ''p'' [] [Text '' caption   only'']]"
    by simp
  have la: "find_in p_b_lineclamp3 listed = []" by code_simp
  have lb: "find_in b_caption_p listed = []" by code_simp
  have items: "map preferred_text (find_in b_dList_items listed) = [''full text of one'', ''two'']"
    by code_simp
  have nc: "collapse_ws (trim (spaced [''full text of one'', ''two''])) = ''full text of one two''"
    by code_simp
  from bing_content_by_presence [of listed "[]" "Text []" "[]" "[]" "[]" "[]"] la lb items nc
  have 6: "bing_content listed = ''full text of one two''" by auto
  from a b ra ca cb oa ob la lb items found unstamped stamp 1 2 3 4 5 6 7 8
  show ?thesis by simp
qed

lemma map_filter_if:
  "(\<And>x. f x = (if P x then Some (g x) else None)) \<Longrightarrow>
     List.map_filter f xs = map g (filter P xs)"
  by (induction xs) simp_all

text \<open>
  Claim C5: \<^verbatim>\<open>parseBaiduSearchResults\<close> pushes a result for exactly the containers whose
  title, link and content are all non-empty, so a container with an absent or empty
  content span is dropped; \<^verbatim>\<open>parseBingSearchResults\<close> pushes a result for exactly the
  containers whose title and link are non-empty, with the empty string as content when
  no tier yields text.
\<close>

theorem candidates_kept:
  "(baidu_each element \<noteq> None
      \<longleftrightarrow> baidu_title element \<noteq> [] \<and> truthy (baidu_url element) \<and> baidu_content element \<noteq> [])
   \<and> (baidu_content element = [] \<longrightarrow> baidu_each element = None)
   \<and> (\<forall>r \<in> set (parseBaiduSearchResults load html).
         title r \<noteq> [] \<and> url r \<noteq> [] \<and> content r \<noteq> [])
   \<and> parseBaiduSearchResults load html
       = map (\<lambda>e. \<lparr>url = the (baidu_url e), title = baidu_title e, content = baidu_content e\<rparr>)
           (filter (\<lambda>e. baidu_title e \<noteq> [] \<and> truthy (baidu_url e) \<and> baidu_content e \<noteq> [])
              (select_nodes div_result_c_container (load html)))
   \<and> (bing_each element \<noteq> None \<longleftrightarrow> bing_title element \<noteq> [] \<and> truthy (bing_url element))
   \<and> (bing_title element \<noteq> [] \<and> truthy (bing_url element) \<and> tier_a element = []
        \<and> tier_b element = [] \<and> tier_c element = []
        \<longrightarrow> bing_each element
              = Some \<lparr>url = the (bing_url element), title = bing_title element, content = []\<rparr>)
   \<and> (\<forall>r \<in> set (parseBingSearchResults load html). title r \<noteq> [] \<and> url r \<noteq> [])
   \<and> parseBingSearchResults load html
       = map (\<lambda>e. \<lparr>url = the (bing_url e), title = bing_title e, content = bing_content e\<rparr>)
           (filter (\<lambda>e. bing_title e \<noteq> [] \<and> truthy (bing_url e))
              (select_nodes li_b_algo (load html)))"
proof -
  have baidu: "parseBaiduSearchResults load html
       = map (\<lambda>e. \<lparr>url = the (baidu_url e), title = baidu_title e, content = baidu_content e\<rparr>)
           (filter (\<lambda>e. baidu_title e \<noteq> [] \<and> truthy (baidu_url e) \<and> baidu_content e \<noteq> [])
              (select_nodes div_result_c_container (load html)))"
    unfolding parseBaiduSearchResults_def
    by (rule map_filter_if) (simp add: baidu_each_def)
  have bing: "parseBingSearchResults load html
       = map (\<lambda>e. \<lparr>url = the (bing_url e), title = bing_title e, content = bing_content e\<rparr>)
           (filter (\<lambda>e. bing_title e \<noteq> [] \<and> truthy (bing_url e))
              (select_nodes li_b_algo (load html)))"
    unfolding parseBingSearchResults_def
    by (rule map_filter_if) (simp add: bing_each_def)
  have baidu_all: "\<forall>r \<in> set (parseBaiduSearchResults load html).
         title r \<noteq> [] \<and> url r \<noteq> [] \<and> content r \<noteq> []"
    unfolding baidu by (auto simp: truthy_def split: option.splits)
  have bing_all: "\<forall>r \<in> set (parseBingSearchResults load html). title r \<noteq> [] \<and> url r \<noteq> []"
    unfolding bing by (auto simp: truthy_def split: option.splits)
  have empty: "bing_content element = []"
    if "tier_a element = []" "tier_b element = []" "tier_c element = []"
    using that by (simp add: bing_content_def tier_a_def tier_b_def tier_c_def)
  have each: "(baidu_each element \<noteq> None
      \<longleftrightarrow> baidu_title element \<noteq> [] \<and> truthy (baidu_url element) \<and> baidu_content element \<noteq> [])
     \<and> (baidu_content element = [] \<longrightarrow> baidu_each element = None)
     \<and> (bing_each element \<noteq> None \<longleftrightarrow> bing_title element \<noteq> [] \<and> truthy (bing_url element))"
    by (simp add: baidu_each_def bing_each_def)
  have kept: "bing_title element \<noteq> [] \<and> truthy (bing_url element) \<and> tier_a element = []
        \<and> tier_b element = [] \<and> tier_c element = []
        \<longrightarrow> bing_each element
              = Some \<lparr>url = the (bing_url element), title = bing_title element, content = []\<rparr>"
    using empty by (simp add: bing_each_def)
  from each kept baidu_all bing_all baidu bing show ?thesis by blast
qed

theorem candidates_kept_witness:
  "baidu_title (baidu_container []) = ''Fifth''
   \<and> baidu_url (baidu_container []) = Some ''https://e.example/''
   \<and> baidu_content (baidu_container []) = []
   \<and> baidu_each (baidu_container []) = None
   \<and> parseBaiduSearchResults (\<lambda>h. [baidu_container []]) ''page'' = []
   \<and> baidu_content blank_content = [] \<and> baidu_each blank_content = None
   \<and> bing_title bare = ''Third'' \<and> bing_url bare = Some ''https://c.example/''
   \<and> tier_a bare = [] \<and> tier_b bare = [] \<and> tier_c bare = []
   \<and> bing_each bare = Some \<lparr>url = ''https://c.example/'', title = ''Third'', content = []\<rparr>"
proof -
  have 1: "baidu_title (baidu_container []) = ''Fifth''" by code_simp
  have 2: "baidu_url (baidu_container []) = Some ''https://e.example/''" by code_simp
  have 3: "baidu_content (baidu_container []) = []" by code_simp
  have 4: "select_nodes div_result_c_container [baidu_container []] = [baidu_container []]"
    by code_simp
  have 5: "bing_title bare = ''Third''" by code_simp
  have 6: "bing_url bare = Some ''https://c.example/''" by code_simp
  have 7: "tier_a bare = []" "tier_b bare = []" "tier_c bare = []" by code_simp+
  from candidates_kept [of "baidu_container []" "\<lambda>h. [baidu_container []]" "''page''"] 1 2 3 4
  have b: "baidu_each (baidu_container []) = None"
    and p: "parseBaiduSearchResults (\<lambda>h. [baidu_container []]) ''page'' = []"
    by simp_all
  from candidates_kept [of bare "\<lambda>h. []" "[]"] 5 6 7
  have k: "bing_each bare = Some \<lparr>url = ''https://c.example/'', title = ''Third'', content = []\<rparr>"
    by (simp add: truthy_def)
  have 8: "baidu_content blank_content = []" by code_simp
  from candidates_kept [of blank_content "\<lambda>h. []" "[]"] 8
  have d: "baidu_each blank_content = None" by simp
  from 1 2 3 5 6 7 8 b p k d show ?thesis by simp
qed

subsection \<open>The methods of one call\<close>

lemma waitForPageSlot_free:
  "activePages s < maxConcurrentPages s \<Longrightarrow>
     waitForPageSlot s = Some (s\<lparr>activePages := activePages s + 1\<rparr>)"
  by (subst waitForPageSlot.simps) simp

lemma waitForPageSlot_Some_free:
  "waitForPageSlot s = Some s' \<Longrightarrow> activePages s < maxConcurrentPages s"
  by (rule waitForPageSlot.raw_induct [where P = "\<lambda>s s'. activePages s < maxConcurrentPages s"])
     (auto split: if_splits)

lemma waitForPageSlot_Some:
  assumes "waitForPageSlot s = Some s'"
  shows "activePages s < maxConcurrentPages s \<and> s' = s\<lparr>activePages := activePages s + 1\<rparr>"
proof -
  have free: "activePages s < maxConcurrentPages s"
    using assms by (rule waitForPageSlot_Some_free)
  with assms show ?thesis by (simp add: waitForPageSlot_free)
qed

lemma waitForPageSlot_full:
  "maxConcurrentPages s \<le> activePages s \<Longrightarrow> waitForPageSlot s = None"
  using waitForPageSlot_Some [of s] by (cases "waitForPageSlot s") auto

lemma initializeBrowser_fields:
  "initializeBrowser env s = (x, s') \<Longrightarrow>
     result s' = result s \<and> activePages s' = activePages s
     \<and> maxConcurrentPages s' = maxConcurrentPages s \<and> contexts s' = contexts s \<and> visited s' = visited s"
  by (auto simp: initializeBrowser_def split: option.splits)

lemma getOrCreateContext_fields:
  "getOrCreateContext env uid s = (x, s') \<Longrightarrow>
     result s' = result s \<and> activePages s' = activePages s
     \<and> maxConcurrentPages s' = maxConcurrentPages s \<and> visited s' = visited s"
  by (auto simp: getOrCreateContext_def split: option.splits prod.splits sum.splits
           dest!: initializeBrowser_fields)

lemma try_block_fields:
  "try_block env a s = (p, r, s') \<Longrightarrow>
     result s' = result s \<and> activePages s' = activePages s
     \<and> maxConcurrentPages s' = maxConcurrentPages s"
  by (auto simp: try_block_def Let_def split: option.splits)

lemma try_block_html:
  "try_block env a s = (p, Inr html, s') \<Longrightarrow>
     page_content env = Inr html \<and> p \<noteq> None \<and> visited s' = visited s @ [a]"
  by (auto simp: try_block_def Let_def split: option.splits)

lemma finally_block_fields:
  "finally_block env p r s = (x, s') \<Longrightarrow>
     result s' = result s \<and> maxConcurrentPages s' = maxConcurrentPages s \<and> visited s' = visited s"
  by (auto simp: finally_block_def releasePageSlot_def split: option.splits)

lemma finally_block_html:
  "finally_block env p r s = (Inr html, s') \<Longrightarrow> r = Inr html \<and> s' = releasePageSlot s"
  by (auto simp: finally_block_def split: option.splits)

lemma openUrl_result:
  "openUrlInSearchWindow env uid a s = Some (x, s') \<Longrightarrow> result s' = result s"
  by (auto simp: openUrlInSearchWindow_def split: option.splits prod.splits sum.splits
      dest!: waitForPageSlot_Some getOrCreateContext_fields try_block_fields finally_block_fields)

lemma openUrl_html:
  assumes "openUrlInSearchWindow env uid a s = Some (Inr html, s')"
  shows "page_content env = Inr html \<and> visited s' = visited s @ [a]
         \<and> activePages s' = activePages s"
proof -
  from assms obtain s1 c s2 p r s3 where
    w: "waitForPageSlot s = Some s1" and g: "getOrCreateContext env uid s1 = (Inr c, s2)"
    and t: "try_block env a s2 = (p, r, s3)" and f: "finally_block env p r s3 = (Inr html, s')"
    by (auto simp: openUrlInSearchWindow_def split: option.splits prod.splits sum.splits)
  from f have r: "r = Inr html" and s': "s' = releasePageSlot s3"
    by (auto dest: finally_block_html)
  from t r have "page_content env = Inr html" "visited s3 = visited s2 @ [a]"
    by (auto dest: try_block_html)
  moreover from t have "activePages s3 = activePages s2" by (auto dest: try_block_fields)
  moreover from g have "activePages s2 = activePages s1" "visited s2 = visited s1"
    by (auto dest: getOrCreateContext_fields)
  moreover from w have "activePages s1 = activePages s + 1" "visited s1 = visited s"
    by (auto dest: waitForPageSlot_Some)
  ultimately show ?thesis using s' by (simp add: releasePageSlot_def)
qed


lemma search_unfold:
  "search load env q opts s =
     (case openUrlInSearchWindow env (request_uid opts) (search_address opts q) s of
        None \<Rightarrow> None
      | Some (Inl e, s1) \<Rightarrow> Some (Inl e, s1)
      | Some (Inr html, s1) \<Rightarrow>
          Some (Inr \<lparr>query = q, results = slice0 (extract_results load opts html) (request_max_results opts)\<rparr>,
                s1\<lparr>result := Some \<lparr>query = q,
                     results = slice0 (extract_results load opts html) (request_max_results opts)\<rparr>\<rparr>))"
proof (cases "toLowerCase (request_engine opts) = ''baidu''")
  case True
  then show ?thesis
    by (simp add: search_def extract_results_def search_address_def Let_def
             split: option.splits prod.splits sum.splits)
next
  case False
  then show ?thesis
    by (simp add: search_def extract_results_def search_address_def Let_def
             split: option.splits prod.splits sum.splits)
qed

lemma search_Inr:
  assumes "search load env q opts s = Some (Inr r, s')"
  shows "\<exists>html s1. openUrlInSearchWindow env (request_uid opts) (search_address opts q) s
                      = Some (Inr html, s1)
           \<and> r = \<lparr>query = q, results = slice0 (extract_results load opts html) (request_max_results opts)\<rparr>
           \<and> s' = s1\<lparr>result := Some r\<rparr>"
  using assms unfolding search_unfold
  by (auto split: option.splits prod.splits sum.splits)

lemma search_Inl:
  assumes "search load env q opts s = Some (Inl e, s')"
  shows "openUrlInSearchWindow env (request_uid opts) (search_address opts q) s = Some (Inl e, s')"
  using assms unfolding search_unfold
  by (auto split: option.splits prod.splits sum.splits)

lemma fixture_results:
  "parseBingSearchResults (\<lambda>h. fixture) html
     = [\<lparr>url = ''https://a.example/'', title = ''First'', content = ''clamped text''\<rparr>,
        \<lparr>url = ''https://b.example/'', title = ''Second'', content = ''full text of one two''\<rparr>,
        \<lparr>url = ''https://c.example/'', title = ''Third'', content = []\<rparr>]"
  by code_simp

lemma first_search:
  "search (\<lambda>h. fixture) (quiet ''page'') ''test topic'' request new_server
     = Some (Inr first_two, after_first_search)"
  by code_simp

lemma search_returns_or_throws:
  assumes "activePages s < maxConcurrentPages s"
  shows "\<exists>x s'. search load env q opts s = Some (x, s')"
proof -
  obtain y s2 where g: "getOrCreateContext env (request_uid opts)
      (s\<lparr>activePages := activePages s + 1\<rparr>) = (y, s2)"
    by (cases "getOrCreateContext env (request_uid opts) (s\<lparr>activePages := activePages s + 1\<rparr>)")
  obtain p r s3 where t: "try_block env (search_address opts q) s2 = (p, r, s3)"
    by (cases "try_block env (search_address opts q) s2")
  obtain z s4 where f: "finally_block env p r s3 = (z, s4)"
    by (cases "finally_block env p r s3")
  from assms g t f
  have "\<exists>x s1. openUrlInSearchWindow env (request_uid opts) (search_address opts q) s
                  = Some (x, s1)"
    by (cases y) (simp_all add: openUrlInSearchWindow_def waitForPageSlot_free)
  then show ?thesis
    unfolding search_unfold by (auto split: sum.splits)
qed

lemma search_waits:
  assumes "maxConcurrentPages s \<le> activePages s"
  shows "search load env q opts s = None"
  unfolding search_unfold
  by (simp add: openUrlInSearchWindow_def waitForPageSlot_full [OF assms])

lemma slot_restored:
  assumes "openUrlInSearchWindow env uid a s = Some (x, s')"
    and "getOrCreateContext env uid (s\<lparr>activePages := activePages s + 1\<rparr>) = (Inr c, s2)"
    and "page_close env = None"
  shows "activePages s' = activePages s"
proof -
  from assms(1) obtain s1 where w: "waitForPageSlot s = Some s1"
    by (auto simp: openUrlInSearchWindow_def split: option.splits)
  from waitForPageSlot_Some [OF w] have s1: "s1 = s\<lparr>activePages := activePages s + 1\<rparr>"
    by simp
  obtain p r s3 where t: "try_block env a s2 = (p, r, s3)" by (cases "try_block env a s2")
  from assms(1) w s1 assms(2) t have f: "finally_block env p r s3 = (x, s')"
    by (simp add: openUrlInSearchWindow_def)
  from assms(3) f have "activePages s' = activePages s3 - 1"
    by (auto simp: finally_block_def releasePageSlot_def split: option.splits)
  moreover from t have "activePages s3 = activePages s2" by (auto dest: try_block_fields)
  moreover from assms(2) have "activePages s2 = activePages s + 1"
    by (auto dest: getOrCreateContext_fields)
  ultimately show ?thesis by simp
qed

lemma slot_kept:
  assumes "activePages s < maxConcurrentPages s"
    and "getOrCreateContext env uid (s\<lparr>activePages := activePages s + 1\<rparr>) = (Inl e, s2)"
  shows "openUrlInSearchWindow env uid a s = Some (Inl e, s2)
         \<and> activePages s2 = activePages s + 1"
proof -
  from assms(2) have "activePages s2 = activePages s + 1"
    by (auto dest: getOrCreateContext_fields)
  with assms show ?thesis
    by (simp add: openUrlInSearchWindow_def waitForPageSlot_free)
qed

text \<open>
  Claim C1 says that the counter \<open>activePages\<close> is the same after every call of
  \<^verbatim>\<open>search\<close> as before it, also when the browser or the context cannot be obtained.
  The call of \<^verbatim>\<open>getOrCreateContext\<close> in line 187 stands between the increment and the
  \<^verbatim>\<open>try\<close> block: when \<^verbatim>\<open>chromium.launch\<close> throws, \<^verbatim>\<open>search\<close> throws that error and the
  counter stays one higher than before.
\<close>

theorem launch_failure_keeps_slot:
  "search no_document ((quiet [])\<lparr>launch := Some (Error ''launch failed'')\<rparr>) ''q'' defaults
       new_server
     = Some (Inl (Error ''launch failed''), new_server\<lparr>activePages := 1\<rparr>)"
  by code_simp

text \<open>
  Claim C3: a call of \<^verbatim>\<open>search\<close> that returns, with a \<^verbatim>\<open>max_results\<close> that is not negative,
  returns and stores the first \<^verbatim>\<open>max_results\<close> results of the extraction (all of them if
  there are fewer), in their order: the list is no longer than \<^verbatim>\<open>max_results\<close>, it is a
  prefix of the extracted list, and \<^verbatim>\<open>formatJSON\<close> then returns it.
\<close>

theorem search_truncates:
  assumes "search load env q opts s = Some (Inr r, s')"
    and "0 \<le> request_max_results opts"
  shows "\<exists>html. page_content env = Inr html
           \<and> results r = take (nat (request_max_results opts)) (extract_results load opts html)
           \<and> int (length (results r)) \<le> request_max_results opts
           \<and> prefix (results r) (extract_results load opts html)
           \<and> result s' = Some r \<and> formatJSON s' = results r"
proof -
  from search_Inr [OF assms(1)] obtain html s1 where
    o: "openUrlInSearchWindow env (request_uid opts) (search_address opts q) s = Some (Inr html, s1)"
    and r: "r = \<lparr>query = q, results = slice0 (extract_results load opts html) (request_max_results opts)\<rparr>"
    and s': "s' = s1\<lparr>result := Some r\<rparr>" by blast
  from o have "page_content env = Inr html" by (auto dest: openUrl_html)
  moreover from r assms(2)
  have t: "results r = take (nat (request_max_results opts)) (extract_results load opts html)"
    by (simp add: slice0_def)
  moreover from t assms(2) have "int (length (results r)) \<le> request_max_results opts" by simp
  moreover from t have "prefix (results r) (extract_results load opts html)" by (simp add: take_is_prefix)
  moreover from s' have "result s' = Some r" "formatJSON s' = results r"
    by (simp_all add: formatJSON_def)
  ultimately show ?thesis by blast
qed

theorem search_truncates_witness:
  "search (\<lambda>h. fixture) (quiet ''page'') ''test topic'' request new_server
     = Some (Inr first_two, after_first_search)
   \<and> 0 \<le> request_max_results request
   \<and> results first_two = take 2 (extract_results (\<lambda>h. fixture) request ''page'')
   \<and> length (results first_two) = 2
   \<and> length (extract_results (\<lambda>h. fixture) request ''page'') = 3
   \<and> prefix (results first_two) (extract_results (\<lambda>h. fixture) request ''page'')
   \<and> formatJSON after_first_search = results first_two"
proof -
  have n: "0 \<le> request_max_results request"
    by (simp add: request_max_results_def request_def)
  have "toLowerCase (request_engine request) \<noteq> ''baidu''"
    by (simp add: request_engine_def request_def toLowerCase_def lower_char_def)
  then have three: "length (extract_results (\<lambda>h. fixture) request ''page'') = 3"
    by (simp add: extract_results_def fixture_results)
  from search_truncates [OF first_search n] three show ?thesis
    using first_search n by (auto simp: quiet_def request_max_results_def request_def)
qed

text \<open>
  Claim C10: a call of \<^verbatim>\<open>search\<close> that throws leaves the stored response as it was, so
  \<^verbatim>\<open>formatContent\<close> and \<^verbatim>\<open>formatJSON\<close> still answer from the last call that returned.
\<close>

theorem failed_search_keeps_result:
  assumes "search load env q opts s = Some (Inl e, s')"
  shows "result s' = result s \<and> formatContent s' = formatContent s \<and> formatJSON s' = formatJSON s"
proof -
  from search_Inl [OF assms] have "result s' = result s" by (rule openUrl_result)
  then show ?thesis by (simp add: formatContent_def formatJSON_def)
qed

theorem failed_search_keeps_result_witness:
  "search (\<lambda>h. fixture) ((quiet ''page'')\<lparr>goto := (\<lambda>a. Some (Error ''timeout''))\<rparr>)
       ''other'' request after_first_search
     = Some (Inl (Error ''timeout''),
             after_first_search\<lparr>created := 4,
               visited := visited after_first_search @ [''https://www.bing.com/search?q=other'']\<rparr>)
   \<and> result (after_first_search\<lparr>created := 4,
               visited := visited after_first_search @ [''https://www.bing.com/search?q=other'']\<rparr>)
       = Some first_two
   \<and> formatJSON (after_first_search\<lparr>created := 4,
               visited := visited after_first_search @ [''https://www.bing.com/search?q=other'']\<rparr>)
       = results first_two"
proof -
  have run: "search (\<lambda>h. fixture) ((quiet ''page'')\<lparr>goto := (\<lambda>a. Some (Error ''timeout''))\<rparr>)
       ''other'' request after_first_search
     = Some (Inl (Error ''timeout''),
             after_first_search\<lparr>created := 4,
               visited := visited after_first_search @ [''https://www.bing.com/search?q=other'']\<rparr>)"
    by code_simp
  from failed_search_keeps_result [OF run] run show ?thesis
    by (simp add: after_first_search_def formatJSON_def)
qed

text \<open>
  Claim C8: while no response is stored, as on a new instance, \<^verbatim>\<open>formatContent\<close> returns the
  empty string and \<^verbatim>\<open>formatJSON\<close> the empty list.
\<close>

theorem format_without_result:
  "result s = None \<Longrightarrow> formatContent s = [] \<and> formatJSON s = []"
  by (simp add: formatContent_def formatJSON_def)

theorem format_without_result_witness:
  "result new_server = None \<and> formatContent new_server = [] \<and> formatJSON new_server = []"
proof -
  have none: "result new_server = None" by (simp add: new_server_def)
  from format_without_result [OF none] none show ?thesis by simp
qed

lemma cleanup_None:
  assumes "cleanup env s = (None, s')"
  shows "browser s' = None \<and> contexts s' = [] \<and> activePages s' = 0 \<and> result s' = None"
  using assms by (auto simp: cleanup_def split: prod.splits option.splits)

lemma cleanup_nothing:
  assumes "browser s = None" and "contexts s = []"
  shows "cleanup env s = (None, s\<lparr>activePages := 0, result := None\<rparr>)"
  using assms by (simp add: cleanup_def)

text \<open>
  Claim C7: \<^verbatim>\<open>cleanup\<close> on a new instance returns and changes nothing; when \<^verbatim>\<open>cleanup\<close>
  returns, the browser is \<^verbatim>\<open>null\<close>, the map is empty, the counter is zero and no response
  is stored, and a second \<^verbatim>\<open>cleanup\<close> returns too, whatever the browser library does, and
  changes nothing.
\<close>

theorem cleanup_safe:
  "cleanup env new_server = (None, new_server)
   \<and> (cleanup env s = (None, s') \<longrightarrow>
        browser s' = None \<and> contexts s' = [] \<and> activePages s' = 0 \<and> result s' = None
        \<and> cleanup env' s' = (None, s'))"
proof -
  have "cleanup env new_server = (None, new_server)"
    by (simp add: cleanup_def new_server_def)
  moreover have "cleanup env' s' = (None, s')" 
    and "browser s' = None \<and> contexts s' = [] \<and> activePages s' = 0 \<and> result s' = None"
    if "cleanup env s = (None, s')"
  proof -
    from cleanup_None [OF that]
    show f: "browser s' = None \<and> contexts s' = [] \<and> activePages s' = 0 \<and> result s' = None" .
    then have "s'\<lparr>activePages := 0, result := None\<rparr> = s'" by simp
    with f show "cleanup env' s' = (None, s')" by (simp add: cleanup_nothing)
  qed
  ultimately show ?thesis by blast
qed


theorem cleanup_safe_witness:
  "cleanup (quiet []) after_first_search
     = (None, after_first_search\<lparr>browser := None, contexts := [], result := None\<rparr>)
   \<and> cleanup ((quiet [])\<lparr>browser_close := Some (Error ''gone'')\<rparr>)
         (after_first_search\<lparr>browser := None, contexts := [], result := None\<rparr>)
     = (None, after_first_search\<lparr>browser := None, contexts := [], result := None\<rparr>)"
proof -
  have run: "cleanup (quiet []) after_first_search
     = (None, after_first_search\<lparr>browser := None, contexts := [], result := None\<rparr>)"
    by (simp add: cleanup_def after_first_search_def quiet_def context_closed_def
                  browser_disconnected_def)
  from cleanup_safe [of "quiet []" after_first_search
      "after_first_search\<lparr>browser := None, contexts := [], result := None\<rparr>"
      "(quiet [])\<lparr>browser_close := Some (Error ''gone'')\<rparr>"] run
  show ?thesis by simp
qed

lemma openUrl_error:
  assumes "openUrlInSearchWindow env uid a s = Some (Inl e, s')"
  shows "Some e \<in> {launch env, newContext env, newPage env, goto env a, waitForTimeout env,
                    page_close env} \<or> page_content env = Inl e"
  using assms
  by (auto simp: openUrlInSearchWindow_def getOrCreateContext_def initializeBrowser_def
        try_block_def finally_block_def Let_def
      split: option.splits prod.splits sum.splits)

text \<open>
  Claim C6: with an \<^verbatim>\<open>engine\<close> whose lower-case form is not \<^verbatim>\<open>baidu\<close>, \<^verbatim>\<open>search\<close> does what it
  does for \<^verbatim>\<open>bing\<close>: it visits the Bing address, extracts with the Bing rules, and throws
  only an error that the browser library has thrown.
\<close>

theorem unrecognized_engine_is_bing:
  assumes "toLowerCase e \<noteq> ''baidu''"
  shows "search load env q (opts\<lparr>opt_engine := Some e\<rparr>) s
           = search load env q (opts\<lparr>opt_engine := Some ''bing''\<rparr>) s
         \<and> (\<forall>r s'. search load env q (opts\<lparr>opt_engine := Some e\<rparr>) s = Some (Inr r, s') \<longrightarrow>
               visited s' = visited s @ [''https://www.bing.com/search?q='' @ encodeURIComponent q]
               \<and> (\<exists>html. page_content env = Inr html
                     \<and> results r = slice0 (parseBingSearchResults load html)
                                     (request_max_results opts)))
         \<and> (\<forall>err s'. search load env q (opts\<lparr>opt_engine := Some e\<rparr>) s = Some (Inl err, s') \<longrightarrow>
               Some err \<in> {launch env, newContext env, newPage env,
                            goto env (''https://www.bing.com/search?q='' @ encodeURIComponent q),
                            waitForTimeout env, page_close env}
               \<or> page_content env = Inl err)"
proof -
  let ?o = "opts\<lparr>opt_engine := Some e\<rparr>"
  let ?a = "''https://www.bing.com/search?q='' @ encodeURIComponent q"
  have bing: "toLowerCase ''bing'' \<noteq> ''baidu''"
    by (simp add: toLowerCase_def)
  from assms have a: "search_address ?o q = ?a"
    and x: "extract_results load ?o = parseBingSearchResults load"
    and u: "request_uid ?o = request_uid opts"
    and n: "request_max_results ?o = request_max_results opts"
    by (auto simp: search_address_def extract_results_def request_engine_def request_uid_def
                   request_max_results_def)
  from bing have a': "search_address (opts\<lparr>opt_engine := Some ''bing''\<rparr>) q = ?a"
    and x': "extract_results load (opts\<lparr>opt_engine := Some ''bing''\<rparr>) = parseBingSearchResults load"
    and u': "request_uid (opts\<lparr>opt_engine := Some ''bing''\<rparr>) = request_uid opts"
    and n': "request_max_results (opts\<lparr>opt_engine := Some ''bing''\<rparr>) = request_max_results opts"
    by (auto simp: search_address_def extract_results_def request_engine_def request_uid_def
                   request_max_results_def)
  have same: "search load env q ?o s = search load env q (opts\<lparr>opt_engine := Some ''bing''\<rparr>) s"
    by (simp only: search_unfold a a' x x' u u' n n')
  have ok: "visited s' = visited s @ [?a]
            \<and> (\<exists>html. page_content env = Inr html
                  \<and> results r = slice0 (parseBingSearchResults load html) (request_max_results opts))"
    if "search load env q ?o s = Some (Inr r, s')" for r s'
  proof -
    from search_Inr [OF that] obtain html s1 where
      o: "openUrlInSearchWindow env (request_uid ?o) (search_address ?o q) s = Some (Inr html, s1)"
      and r: "r = \<lparr>query = q, results = slice0 (extract_results load ?o html) (request_max_results ?o)\<rparr>"
      and s': "s' = s1\<lparr>result := Some r\<rparr>" by blast
    from openUrl_html [OF o] a s' have "visited s' = visited s @ [?a]" "page_content env = Inr html"
      by simp_all
    with r x n show ?thesis by simp
  qed
  have err: "Some err \<in> {launch env, newContext env, newPage env, goto env ?a,
                          waitForTimeout env, page_close env}
             \<or> page_content env = Inl err"
    if "search load env q ?o s = Some (Inl err, s')" for err s'
    using openUrl_error [OF search_Inl [OF that]] a by simp
  from same ok err show ?thesis by blast
qed

theorem unrecognized_engine_is_bing_witness:
  "toLowerCase ''PrimaryEngine'' \<noteq> ''baidu''
   \<and> search (\<lambda>h. fixture) (quiet ''page'') ''test topic''
        (request\<lparr>opt_engine := Some ''PrimaryEngine''\<rparr>) new_server
      = Some (Inr first_two, after_first_search)
   \<and> search (\<lambda>h. fixture) (quiet ''page'') ''test topic''
        (request\<lparr>opt_engine := Some ''bing''\<rparr>) new_server
      = Some (Inr first_two, after_first_search)
   \<and> visited after_first_search
      = visited new_server @ [''https://www.bing.com/search?q='' @ encodeURIComponent ''test topic'']"
proof -
  have e: "toLowerCase ''PrimaryEngine'' \<noteq> ''baidu''"
    by (simp add: toLowerCase_def)
  have r: "request\<lparr>opt_engine := Some ''PrimaryEngine''\<rparr> = request"
    by (simp add: request_def)
  from unrecognized_engine_is_bing [OF e, of "\<lambda>h. fixture" "quiet ''page''" "''test topic''"
        request new_server] first_search r
  show ?thesis using e by simp
qed

subsection \<open>Interleaved calls\<close>

lemma count_update:
  "i < length xs \<Longrightarrow>
     int (length (filter P (xs[i := y])))
       = int (length (filter P xs)) - one_if (P (xs ! i)) + one_if (P y)"
proof (induction xs arbitrary: i)
  case Nil
  then show ?case by simp
next
  case (Cons x xs)
  show ?case
  proof (cases i)
    case 0
    then show ?thesis by (simp add: one_if_def)
  next
    case (Suc j)
    with Cons.prems have "j < length xs" by simp
    from Cons.IH [OF this] Suc show ?thesis by simp
  qed
qed

lemma count_mono:
  "(\<And>x. P x \<Longrightarrow> Q x) \<Longrightarrow> length (filter P xs) \<le> length (filter Q xs)"
  by (induction xs) auto

lemma has_page_holds_slot: "has_page p \<Longrightarrow> holds_slot p"
  by (cases p) auto

lemma pages_le_slots: "pages_open sys \<le> slots_held sys"
  unfolding pages_open_def slots_held_def
  by (simp add: count_mono has_page_holds_slot)

lemma loop_test_counter:
  "loop_test s = (p, s') \<Longrightarrow>
     maxConcurrentPages s' = maxConcurrentPages s
     \<and> activePages s' = activePages s + one_if (holds_slot p)
     \<and> (holds_slot p \<longrightarrow> activePages s < maxConcurrentPages s)
     \<and> (p = Sleeping \<or> p = Slot_taken)"
  by (auto simp: loop_test_def one_if_def split: if_splits)

lemma resume_counter:
  "resume load q opts p out s = Some (p', s') \<Longrightarrow>
     maxConcurrentPages s' = maxConcurrentPages s
     \<and> one_if (holds_slot p') - one_if (holds_slot p) \<le> activePages s' - activePages s
     \<and> (activePages s' \<le> activePages s \<or> activePages s' \<le> maxConcurrentPages s)"
  by (induction load q opts p out s rule: resume.induct)
     (auto simp: loop_test_def one_if_def releasePageSlot_def Let_def
           split: if_splits option.splits)

lemma step_slot_invariant:
  assumes "slot_invariant sys"
  shows "slot_invariant (step load ev sys)
         \<and> maxConcurrentPages (server_of (step load ev sys)) = maxConcurrentPages (server_of sys)"
proof (cases ev)
  case (Call q opts)
  obtain p s where l: "loop_test (server_of sys) = (p, s)" by (cases "loop_test (server_of sys)")
  from loop_test_counter [OF l] assms Call l show ?thesis
    by (auto simp: slot_invariant_def slots_held_def one_if_def)
next
  case (Settle i out)
  show ?thesis
  proof (cases "i < length (tasks sys)")
    case False
    with Settle assms show ?thesis by simp
  next
    case True
    show ?thesis
    proof (cases "resume load (t_query (tasks sys ! i)) (t_options (tasks sys ! i))
                    (at (tasks sys ! i)) out (server_of sys)")
      case None
      with Settle True assms show ?thesis by simp
    next
      case (Some r)
      obtain p s where r: "r = (p, s)" by (cases r)
      from Some r have st: "step load ev sys
          = sys\<lparr>server_of := s, tasks := (tasks sys)[i := (tasks sys ! i)\<lparr>at := p\<rparr>]\<rparr>"
        using Settle True by simp
      from resume_counter [OF Some [unfolded r]]
      have m: "maxConcurrentPages s = maxConcurrentPages (server_of sys)"
        and d: "one_if (holds_slot p) - one_if (holds_slot (at (tasks sys ! i)))
                  \<le> activePages s - activePages (server_of sys)"
        and u: "activePages s \<le> activePages (server_of sys)
                \<or> activePages s \<le> maxConcurrentPages (server_of sys)" by auto
      have "slots_held (step load ev sys)
              = slots_held sys - one_if (holds_slot (at (tasks sys ! i)))
                + one_if (holds_slot p)"
        unfolding st slots_held_def using True
        by (simp add: count_update [where P = "\<lambda>t. holds_slot (at t)"])
      with m d u assms show ?thesis
        unfolding slot_invariant_def st by auto
    qed
  qed
next
  case (Context_closed c)
  with assms show ?thesis
    by (auto simp: slot_invariant_def slots_held_def context_closed_def split: option.splits)
next
  case (Disconnected b)
  with assms show ?thesis
    by (auto simp: slot_invariant_def slots_held_def browser_disconnected_def)
qed

lemma run_slot_invariant:
  "slot_invariant sys \<Longrightarrow>
     slot_invariant (run load evs sys)
     \<and> maxConcurrentPages (server_of (run load evs sys)) = maxConcurrentPages (server_of sys)"
proof (induction evs arbitrary: sys)
  case Nil
  then show ?case by (simp add: run_def)
next
  case (Cons ev evs)
  from step_slot_invariant [OF Cons.prems, of load ev]
  have 1: "slot_invariant (step load ev sys)"
    and 2: "maxConcurrentPages (server_of (step load ev sys)) = maxConcurrentPages (server_of sys)"
    by auto
  from Cons.IH [OF 1] 2 show ?case by (simp add: run_def)
qed

lemma eleventh_call_waits:
  "activePages (server_of (run no_document (replicate 11 (Call ''q'' defaults)) start)) = 10
   \<and> map at (tasks (run no_document (replicate 11 (Call ''q'' defaults)) start))
       = replicate 10 Slot_taken @ [Sleeping]"
  by code_simp

text \<open>
  Claim C2: however calls of \<^verbatim>\<open>search\<close> on a new instance are interleaved, and however
  the promises they await settle, the pages open at one time are at most the slots
  held, these are at most \<open>activePages\<close>, and \<open>activePages\<close> is at most
  \<open>maxConcurrentPages\<close>, which stays 10.
\<close>

theorem pages_never_exceed_ceiling:
  "pages_open (run load evs start) \<le> slots_held (run load evs start)
   \<and> slots_held (run load evs start) \<le> activePages (server_of (run load evs start))
   \<and> activePages (server_of (run load evs start)) \<le> maxConcurrentPages (server_of (run load evs start))
   \<and> maxConcurrentPages (server_of (run load evs start)) = 10"
proof -
  have "slot_invariant start"
    by (simp add: slot_invariant_def start_def new_server_def slots_held_def)
  from run_slot_invariant [OF this, of load evs] show ?thesis
    by (simp add: slot_invariant_def pages_le_slots start_def new_server_def)
qed


lemma resume_server_ok:
  assumes "resume load q opts p out s = Some (p', s')" and "server_ok s"
  shows "server_ok s'
         \<and> (\<forall>c u. map_of (listeners s) c = Some u \<longrightarrow> map_of (listeners s') c = Some u)
         \<and> (\<forall>c. p' = Have_context c \<longrightarrow> map_of (listeners s') c = Some (request_uid opts))"
  using assms
proof (induction load q opts p out s rule: resume.induct)
  case (7 load q opts v s)
  then show ?case
    by (auto simp: server_ok_def update_conv' distinct_update less_Suc_eq
             simp del: map_of_eq_Some_iff split: if_splits)
       (metis less_irrefl)
qed (auto simp: server_ok_def loop_test_def releasePageSlot_def Let_def less_Suc_eq
          split: if_splits option.splits)

lemma step_registry_invariant:
  assumes "registry_invariant sys"
  shows "registry_invariant (step load ev sys)"
proof (cases ev)
  case (Call q opts)
  with assms show ?thesis
    by (auto simp: registry_invariant_def server_ok_def task_ok_def loop_test_def)
next
  case (Settle i out)
  show ?thesis
  proof (cases "i < length (tasks sys)")
    case False
    with Settle assms show ?thesis by simp
  next
    case True
    show ?thesis
    proof (cases "resume load (t_query (tasks sys ! i)) (t_options (tasks sys ! i))
                    (at (tasks sys ! i)) out (server_of sys)")
      case None
      with Settle True assms show ?thesis by simp
    next
      case (Some r)
      obtain p s where r: "r = (p, s)" by (cases r)
      from Some r have st: "step load ev sys
          = sys\<lparr>server_of := s, tasks := (tasks sys)[i := (tasks sys ! i)\<lparr>at := p\<rparr>]\<rparr>"
        using Settle True by simp
      from assms have ok: "server_ok (server_of sys)"
        and tk: "\<And>t. t \<in> set (tasks sys) \<Longrightarrow> task_ok (server_of sys) t"
        by (auto simp: registry_invariant_def)
      from resume_server_ok [OF Some [unfolded r] ok]
      have s: "server_ok s"
        and kept: "\<And>c u. map_of (listeners (server_of sys)) c = Some u
                     \<Longrightarrow> map_of (listeners s) c = Some u"
        and new: "\<And>c. p = Have_context c
                     \<Longrightarrow> map_of (listeners s) c = Some (request_uid (t_options (tasks sys ! i)))"
        by auto
      have "task_ok s t" if "t \<in> set ((tasks sys)[i := (tasks sys ! i)\<lparr>at := p\<rparr>])" for t
      proof -
        from that have "t = (tasks sys ! i)\<lparr>at := p\<rparr> \<or> t \<in> set (tasks sys)"
          using set_update_subset_insert [of "tasks sys" i] by auto
        then show ?thesis
        proof
          assume "t = (tasks sys ! i)\<lparr>at := p\<rparr>"
          with new show ?thesis by (simp add: task_ok_def)
        next
          assume "t \<in> set (tasks sys)"
          from tk [OF this] kept show ?thesis by (simp add: task_ok_def)
        qed
      qed
      with s show ?thesis unfolding st registry_invariant_def by simp
    qed
  qed
next
  case (Context_closed c)
  with assms show ?thesis
    by (auto simp: registry_invariant_def server_ok_def task_ok_def context_closed_def
             delete_conv' distinct_delete simp del: map_of_eq_Some_iff
             split: option.splits if_splits)
next
  case (Disconnected b)
  with assms show ?thesis
    by (auto simp: registry_invariant_def server_ok_def task_ok_def browser_disconnected_def)
qed

lemma run_registry_invariant:
  "registry_invariant sys \<Longrightarrow> registry_invariant (run load evs sys)"
proof (induction evs arbitrary: sys)
  case Nil
  then show ?case by (simp add: run_def)
next
  case (Cons ev evs)
  from Cons.IH [OF step_registry_invariant [OF Cons.prems, of load ev]]
  show ?case by (simp add: run_def)
qed

lemma start_registry_invariant: "registry_invariant start"
  by (simp add: registry_invariant_def server_ok_def start_def new_server_def)

lemma getOrCreateContext_again:
  assumes "getOrCreateContext env uid s = (Inr c, s1)"
  shows "getOrCreateContext env' uid s1 = (Inr c, s1)"
proof -
  from assms have "map_of (contexts s1) uid = Some c"
    by (auto simp: getOrCreateContext_def initializeBrowser_def update_conv'
             split: option.splits prod.splits sum.splits)
  then show ?thesis by (simp add: getOrCreateContext_def)
qed

lemma getOrCreateContext_server_ok:
  assumes "getOrCreateContext env uid s = (x, s1)" and "server_ok s"
  shows "server_ok s1 \<and> (\<forall>c. x = Inr c \<longrightarrow> map_of (listeners s1) c = Some uid)
     \<and> (\<forall>c u. map_of (listeners s) c = Some u \<longrightarrow> map_of (listeners s1) c = Some u)"
  using assms
  by (auto simp: getOrCreateContext_def initializeBrowser_def update_conv' server_ok_def
                 distinct_update less_Suc_eq
             simp del: map_of_eq_Some_iff
             split: option.splits prod.splits sum.splits if_splits)
     (metis less_irrefl Suc_lessD, metis less_irrefl)

text \<open>
  Claim C9 as stated says that two calls with the same \<^verbatim>\<open>uid\<close> return the same session.
  Two calls that both pass line 63 before either reaches line 70 each create a context:
  \<^verbatim>\<open>getOrCreateContext\<close> returns context 2 to the first and context 3 to the second, and
  the map keeps context 3 only.
\<close>

theorem same_uid_two_sessions:
  "tasks (run no_document same_uid_race start)
     = [\<lparr>t_query = ''a'', t_options = as_user ''u'', at = Have_context 2\<rparr>,
        \<lparr>t_query = ''b'', t_options = as_user ''u'', at = Have_context 3\<rparr>]
   \<and> contexts (server_of (run no_document same_uid_race start)) = [(''u'', 3)]"
  by code_simp

lemma getOrCreateContext_registered:
  "map_of (contexts s) uid = Some c \<Longrightarrow> getOrCreateContext env uid s = (Inr c, s)"
  by (simp add: getOrCreateContext_def)

lemma getOrCreateContext_registers:
  "getOrCreateContext env uid s = (Inr c, s1) \<Longrightarrow> map_of (contexts s1) uid = Some c"
  by (auto simp: getOrCreateContext_def initializeBrowser_def update_conv'
           split: option.splits prod.splits sum.splits)

lemma getOrCreateContext_keeps:
  assumes "map_of (contexts s) uid = Some c"
  shows "map_of (contexts (snd (getOrCreateContext env' uid' s))) uid = Some c"
proof (cases "uid' = uid")
  case True
  with assms show ?thesis by (simp add: getOrCreateContext_registered)
next
  case False
  with assms show ?thesis
    by (auto simp: getOrCreateContext_def initializeBrowser_def update_conv'
             split: option.splits prod.splits sum.splits)
qed

lemma calls_keeps:
  "map_of (contexts s) uid = Some c \<Longrightarrow> map_of (contexts (calls cs s)) uid = Some c"
proof (induction cs arbitrary: s)
  case Nil
  then show ?case by simp
next
  case (Cons a cs)
  obtain env' uid' where a: "a = (env', uid')" by (cases a)
  from Cons.IH [OF getOrCreateContext_keeps [OF Cons.prems, of env' uid']] a
  show ?case by simp
qed

lemma calls_server_ok:
  "server_ok s \<Longrightarrow>
     server_ok (calls cs s)
     \<and> (\<forall>c u. map_of (listeners s) c = Some u \<longrightarrow> map_of (listeners (calls cs s)) c = Some u)"
proof (induction cs arbitrary: s)
  case Nil
  then show ?case by simp
next
  case (Cons a cs)
  obtain env' uid' where a: "a = (env', uid')" by (cases a)
  obtain x s1 where g: "getOrCreateContext env' uid' s = (x, s1)"
    by (cases "getOrCreateContext env' uid' s")
  from getOrCreateContext_server_ok [OF g Cons.prems]
  have ok: "server_ok s1"
    and kept: "\<forall>c u. map_of (listeners s) c = Some u \<longrightarrow> map_of (listeners s1) c = Some u"
    by auto
  from Cons.IH [OF ok] kept a g show ?case by simp
qed

lemma getOrCreateContext_later:
  assumes "server_ok s" and "getOrCreateContext env uid s = (Inr c, s1)"
    and "getOrCreateContext env' uid' (calls cs s1) = (Inr c', s2)" and "uid' \<noteq> uid"
  shows "c' \<noteq> c"
proof
  assume eq: "c' = c"
  from getOrCreateContext_server_ok [OF assms(2) assms(1)]
  have ok1: "server_ok s1" and c: "map_of (listeners s1) c = Some uid" by auto
  from calls_server_ok [OF ok1, of cs] c
  have ok2: "server_ok (calls cs s1)" and c2: "map_of (listeners (calls cs s1)) c = Some uid"
    by auto
  from getOrCreateContext_server_ok [OF assms(3) ok2] c2
  have "map_of (listeners s2) c' = Some uid'" "map_of (listeners s2) c = Some uid" by auto
  with eq assms(4) show False by simp
qed

lemma step_listeners_kept:
  assumes "registry_invariant sys" and "map_of (listeners (server_of sys)) c = Some u"
  shows "map_of (listeners (server_of (step load ev sys))) c = Some u"
proof (cases ev)
  case (Call q opts)
  with assms(2) show ?thesis by (auto simp: loop_test_def)
next
  case (Settle i out)
  show ?thesis
  proof (cases "i < length (tasks sys)")
    case False
    with Settle assms(2) show ?thesis by simp
  next
    case True
    show ?thesis
    proof (cases "resume load (t_query (tasks sys ! i)) (t_options (tasks sys ! i))
                    (at (tasks sys ! i)) out (server_of sys)")
      case None
      with Settle True assms(2) show ?thesis by simp
    next
      case (Some r)
      obtain p s where r: "r = (p, s)" by (cases r)
      from assms(1) have ok: "server_ok (server_of sys)" by (simp add: registry_invariant_def)
      from resume_server_ok [OF Some [unfolded r] ok] assms(2)
      have "map_of (listeners s) c = Some u" by blast
      with Some r Settle True show ?thesis by simp
    qed
  qed
next
  case (Context_closed d)
  with assms(2) show ?thesis by (simp add: context_closed_def split: option.splits)
next
  case (Disconnected b)
  with assms(2) show ?thesis by (simp add: browser_disconnected_def)
qed

lemma run_listeners_kept:
  "registry_invariant sys \<Longrightarrow> map_of (listeners (server_of sys)) c = Some u \<Longrightarrow>
     map_of (listeners (server_of (run load evs sys))) c = Some u"
proof (induction evs arbitrary: sys)
  case Nil
  then show ?case by (simp add: run_def)
next
  case (Cons ev evs)
  from Cons.IH [OF step_registry_invariant [OF Cons.prems(1), of load ev]
                   step_listeners_kept [OF Cons.prems, of load ev]]
  show ?case by (simp add: run_def)
qed

lemma run_append: "run load (evs1 @ evs2) sys = run load evs2 (run load evs1 sys)"
  by (simp add: run_def)

text \<open>
  Claim C9, amended: a call of \<^verbatim>\<open>getOrCreateContext\<close> in a state where a session is
  registered for the \<^verbatim>\<open>uid\<close> returns that session and changes nothing; so a call made
  after an earlier call with the same \<^verbatim>\<open>uid\<close> has returned, and after any further calls
  in between, returns the same session, and a call of \<^verbatim>\<open>search\<close> that reaches line 63
  while the session is registered gets it. Calls with different \<^verbatim>\<open>uid\<close>s return different
  sessions: one after the other with any calls in between, and interleaved, whenever
  in a run the one session was returned and however the run went on until the other
  was. The map holds one entry for a \<^verbatim>\<open>uid\<close> at any time.
\<close>

theorem sessions_by_uid:
  "(map_of (contexts s) uid = Some c \<longrightarrow> getOrCreateContext env uid s = (Inr c, s))
   \<and> (getOrCreateContext env uid s = (Inr c, s1) \<longrightarrow>
        getOrCreateContext env' uid (calls cs s1) = (Inr c, calls cs s1))
   \<and> (getOrCreateContext env uid (server_of (run load evs1 start)) = (Inr c, s1)
        \<and> getOrCreateContext env' uid' (calls cs s1) = (Inr c', s2) \<and> uid' \<noteq> uid \<longrightarrow> c' \<noteq> c)
   \<and> (\<forall>t \<in> set (tasks (run load evs1 start)).
         \<forall>t' \<in> set (tasks (run load (evs1 @ evs2) start)).
           \<forall>d d'. at t = Have_context d \<and> at t' = Have_context d'
                  \<and> request_uid (t_options t) \<noteq> request_uid (t_options t') \<longrightarrow> d \<noteq> d')
   \<and> (map_of (contexts s) (request_uid opts) = Some c \<longrightarrow>
        resume load q opts Slot_taken (Resolved v) s = Some (Have_context c, s))
   \<and> distinct (map fst (contexts (server_of (run load evs1 start))))"
proof -
  have inv1: "registry_invariant (run load evs1 start)"
    by (rule run_registry_invariant [OF start_registry_invariant])
  have inv2: "registry_invariant (run load (evs1 @ evs2) start)"
    by (rule run_registry_invariant [OF start_registry_invariant])
  from inv1 have ok: "server_ok (server_of (run load evs1 start))"
    by (simp add: registry_invariant_def)
  have 0: "map_of (contexts s) uid = Some c \<longrightarrow> getOrCreateContext env uid s = (Inr c, s)"
    by (simp add: getOrCreateContext_registered)
  have 1: "getOrCreateContext env uid s = (Inr c, s1) \<longrightarrow>
           getOrCreateContext env' uid (calls cs s1) = (Inr c, calls cs s1)"
    by (auto dest!: getOrCreateContext_registers intro!: getOrCreateContext_registered calls_keeps)
  have 2: "getOrCreateContext env uid (server_of (run load evs1 start)) = (Inr c, s1)
        \<and> getOrCreateContext env' uid' (calls cs s1) = (Inr c', s2) \<and> uid' \<noteq> uid \<longrightarrow> c' \<noteq> c"
    using getOrCreateContext_later [OF ok] by blast
  have 3: "\<forall>t \<in> set (tasks (run load evs1 start)).
         \<forall>t' \<in> set (tasks (run load (evs1 @ evs2) start)).
           \<forall>d d'. at t = Have_context d \<and> at t' = Have_context d'
                  \<and> request_uid (t_options t) \<noteq> request_uid (t_options t') \<longrightarrow> d \<noteq> d'"
  proof (intro ballI allI impI)
    fix t t' d d'
    assume t: "t \<in> set (tasks (run load evs1 start))"
      and t': "t' \<in> set (tasks (run load (evs1 @ evs2) start))"
      and h: "at t = Have_context d \<and> at t' = Have_context d'
              \<and> request_uid (t_options t) \<noteq> request_uid (t_options t')"
    from inv1 t h
    have "map_of (listeners (server_of (run load evs1 start))) d = Some (request_uid (t_options t))"
      by (simp add: registry_invariant_def task_ok_def)
    from run_listeners_kept [OF inv1 this, of load evs2]
    have "map_of (listeners (server_of (run load (evs1 @ evs2) start))) d
            = Some (request_uid (t_options t))"
      by (simp add: run_append)
    moreover from inv2 t' h
    have "map_of (listeners (server_of (run load (evs1 @ evs2) start))) d'
            = Some (request_uid (t_options t'))"
      by (simp add: registry_invariant_def task_ok_def)
    ultimately show "d \<noteq> d'" using h by auto
  qed
  from ok have 4: "distinct (map fst (contexts (server_of (run load evs1 start))))"
    by (simp add: server_ok_def)
  have 5: "map_of (contexts s) (request_uid opts) = Some c \<longrightarrow>
        resume load q opts Slot_taken (Resolved v) s = Some (Have_context c, s)"
    by simp
  from 0 1 2 3 4 5 show ?thesis by blast
qed

lemma first_user_run:
  "tasks (run no_document first_user start)
     = [\<lparr>t_query = ''a'', t_options = as_user ''u1'', at = Have_context 1\<rparr>,
        \<lparr>t_query = ''b'', t_options = as_user ''u2'', at = Slot_taken\<rparr>]"
  by code_simp

lemma second_user_run:
  "tasks (run no_document (first_user @ second_user) start)
     = [\<lparr>t_query = ''a'', t_options = as_user ''u1'', at = Navigating 2\<rparr>,
        \<lparr>t_query = ''b'', t_options = as_user ''u2'', at = Have_context 3\<rparr>]"
  by code_simp

theorem sessions_by_uid_witness:
  "getOrCreateContext (quiet []) ''u1'' new_server = (Inr 1, one_session)
   \<and> calls [(quiet [], ''u2'')] one_session = two_sessions
   \<and> getOrCreateContext failing ''u1'' two_sessions = (Inr 1, two_sessions)
   \<and> getOrCreateContext (quiet []) ''u2'' one_session = (Inr 2, two_sessions)
   \<and> (2::nat) \<noteq> 1
   \<and> map at (tasks (run no_document first_user start)) = [Have_context 1, Slot_taken]
   \<and> map at (tasks (run no_document (first_user @ second_user) start))
       = [Navigating 2, Have_context 3]
   \<and> (1::nat) \<noteq> 3
   \<and> distinct (map fst (contexts (server_of (run no_document first_user start))))"
proof -
  have first: "getOrCreateContext (quiet []) ''u1'' new_server = (Inr 1, one_session)"
    by (simp add: getOrCreateContext_def initializeBrowser_def quiet_def new_server_def
                  one_session_def)
  have other: "getOrCreateContext (quiet []) ''u2'' one_session = (Inr 2, two_sessions)"
    by (simp add: getOrCreateContext_def initializeBrowser_def quiet_def new_server_def
                  one_session_def two_sessions_def)
  then have between: "calls [(quiet [], ''u2'')] one_session = two_sessions" by simp
  have new: "server_of (run no_document [] start) = new_server"
    by (simp add: run_def start_def)
  note seq = sessions_by_uid [of new_server "''u1''" 1 "quiet []" one_session failing
                "[(quiet [], ''u2'')]" no_document "[]" "''u2''" 2 two_sessions]
  from seq first between
  have again: "getOrCreateContext failing ''u1'' two_sessions = (Inr 1, two_sessions)"
    by simp
  note seq' = sessions_by_uid [of new_server "''u1''" 1 "quiet []" one_session "quiet []"
                "[]" no_document "[]" "''u2''" 2 two_sessions]
  from seq' first other new have "(2::nat) \<noteq> 1" by simp
  moreover
  note inter = sessions_by_uid [of new_server "''u1''" 1 "quiet []" one_session failing
                "[]" no_document first_user "''u2''" 2 two_sessions second_user]
  have t: "\<lparr>t_query = ''a'', t_options = as_user ''u1'', at = Have_context 1\<rparr>
             \<in> set (tasks (run no_document first_user start))"
    by (simp add: first_user_run)
  have t': "\<lparr>t_query = ''b'', t_options = as_user ''u2'', at = Have_context 3\<rparr>
             \<in> set (tasks (run no_document (first_user @ second_user) start))"
    by (simp add: second_user_run)
  have u: "request_uid (as_user ''u1'') \<noteq> request_uid (as_user ''u2'')"
    by (simp add: request_uid_def as_user_def)
  from inter t t' u have "(1::nat) \<noteq> 3" by fastforce
  moreover from inter
  have "distinct (map fst (contexts (server_of (run no_document first_user start))))" by blast
  ultimately show ?thesis
    using first between again other by (simp add: first_user_run second_user_run)
qed

subsection \<open>One call alone, in both models\<close>

lemma lone_Returned: "lone load env q opts n (Returned r, s) = (Returned r, s)"
  by (cases n) simp_all

lemma lone_Fetched:
  "lone load env q opts (Suc n) (Fetched html, s) = after_fetch load q opts (Inr html, s)"
  by (simp add: after_fetch_def Let_def lone_Returned)

lemma lone_Closing:
  "lone load env q opts (Suc (Suc n)) (Closing page r, s)
     = after_fetch load q opts (finally_block env (Some page) r s)"
  by (cases r; cases "page_close env")
     (simp_all add: finally_block_def settled_def after_fetch_def lone_Returned Let_def)

lemma lone_step:
  "resume load q opts p (answer env (search_address opts q) p) s = Some ps \<Longrightarrow>
     lone load env q opts (Suc n) (p, s) = lone load env q opts n ps"
  by simp

lemma lone_Reading:
  "lone load env q opts (Suc (Suc (Suc n))) (Reading page, s)
     = after_fetch load q opts (finally_block env (Some page) (page_content env) s)"
  by (cases "page_content env") (simp_all add: lone_step lone_Closing del: lone.simps)

lemma lone_Settling:
  "lone load env q opts (Suc (Suc (Suc (Suc n)))) (Settling page, s)
     = after_fetch load q opts
         (finally_block env (Some page)
            (case waitForTimeout env of Some e \<Rightarrow> Inl e | None \<Rightarrow> page_content env) s)"
  by (cases "waitForTimeout env")
     (simp_all add: lone_step lone_Closing lone_Reading settled_def del: lone.simps)

lemma lone_Navigating:
  "lone load env q opts (Suc (Suc (Suc (Suc (Suc n))))) (Navigating page, s)
     = after_fetch load q opts
         (finally_block env (Some page)
            (case goto env (search_address opts q) of
               Some e \<Rightarrow> Inl e
             | None \<Rightarrow> (case waitForTimeout env of Some e \<Rightarrow> Inl e | None \<Rightarrow> page_content env))
            s)"
  by (cases "goto env (search_address opts q)")
     (simp_all add: lone_step lone_Closing lone_Settling settled_def del: lone.simps)

lemma lone_Opening_page:
  "lone load env q opts (Suc (Suc (Suc (Suc (Suc (Suc n)))))) (Opening_page, s)
     = after_fetch load q opts
         (case try_block env (search_address opts q) s of
            (page, r, s3) \<Rightarrow> finally_block env page r s3)"
  by (cases "newPage env")
     (simp_all add: lone_step lone_Navigating lone_Returned settled_def try_block_def
        finally_block_def after_fetch_def Let_def
        split: option.splits del: lone.simps)

lemma lone_Have_context:
  "lone load env q opts (Suc (Suc (Suc (Suc (Suc (Suc (Suc n))))))) (Have_context c, s)
     = after_fetch load q opts
         (case try_block env (search_address opts q) s of
            (page, r, s3) \<Rightarrow> finally_block env page r s3)"
  by (simp add: lone_step lone_Opening_page del: lone.simps)

lemma lone_Creating_context:
  "lone load env q opts (Suc (Suc (Suc (Suc (Suc (Suc (Suc (Suc n)))))))) (Creating_context, s)
     = (case newContext env of
          Some e \<Rightarrow> (Returned (Inl e), s)
        | None \<Rightarrow>
            after_fetch load q opts
              (case try_block env (search_address opts q)
                      (s\<lparr>contexts := AList.update (request_uid opts) (created s) (contexts s),
                         created := Suc (created s),
                         listeners := (created s, request_uid opts) # listeners s\<rparr>) of
                 (page, r, s3) \<Rightarrow> finally_block env page r s3))"
  by (cases "newContext env")
     (simp_all add: lone_step lone_Have_context lone_Returned settled_def del: lone.simps)

lemma lone_Slot_taken:
  "lone load env q opts
       (Suc (Suc (Suc (Suc (Suc (Suc (Suc (Suc (Suc (Suc (Suc n))))))))))) (Slot_taken, s)
     = (case getOrCreateContext env (request_uid opts) s of
          (Inl e, s2) \<Rightarrow> (Returned (Inl e), s2)
        | (Inr c, s2) \<Rightarrow>
            after_fetch load q opts
              (case try_block env (search_address opts q) s2 of
                 (page, r, s3) \<Rightarrow> finally_block env page r s3))"
proof (cases "map_of (contexts s) (request_uid opts)")
  case (Some c)
  then show ?thesis
    by (simp add: lone_step lone_Have_context getOrCreateContext_def del: lone.simps)
next
  case None
  show ?thesis
  proof (cases "browser s")
    case (Some b)
    with None show ?thesis
      by (simp add: lone_step lone_Creating_context getOrCreateContext_def
            initializeBrowser_def split: option.splits del: lone.simps)
  next
    case no_browser: None
    show ?thesis
    proof (cases "launch env")
      case (Some e)
      with None no_browser show ?thesis
        by (simp add: lone_step lone_Returned getOrCreateContext_def initializeBrowser_def
              settled_def del: lone.simps)
    next
      case no_error: None
      with None no_browser show ?thesis
        by (simp add: lone_step lone_Creating_context getOrCreateContext_def
              initializeBrowser_def settled_def split: option.splits del: lone.simps)
    qed
  qed
qed


lemma eleven: "(11::nat) = Suc (Suc (Suc (Suc (Suc (Suc (Suc (Suc (Suc (Suc (Suc 0))))))))))"
  by simp

lemma lone_search:
  assumes "search load env q opts s = Some (r, s')"
  shows "lone load env q opts 11 (loop_test s) = (Returned r, s')"
proof -
  from assms obtain x s1 where
    o: "openUrlInSearchWindow env (request_uid opts) (search_address opts q) s = Some (x, s1)"
    and r: "after_fetch load q opts (x, s1) = (Returned r, s')"
    unfolding search_unfold
    by (auto simp: after_fetch_def split: option.splits sum.splits prod.splits)
  from o obtain s0 where w: "waitForPageSlot s = Some s0"
    by (auto simp: openUrlInSearchWindow_def split: option.splits)
  from waitForPageSlot_Some [OF w]
  have free: "activePages s < maxConcurrentPages s"
    and s0: "s0 = s\<lparr>activePages := activePages s + 1\<rparr>" by simp_all
  from free s0 have l: "loop_test s = (Slot_taken, s0)" by (simp add: loop_test_def)
  show ?thesis
  proof (cases "getOrCreateContext env (request_uid opts) s0")
    case (Pair y s2)
    show ?thesis
    proof (cases y)
      case (Inl e)
      with Pair o w r show ?thesis
        unfolding l eleven lone_Slot_taken
        by (auto simp: openUrlInSearchWindow_def after_fetch_def)
    next
      case (Inr c)
      with Pair o w r show ?thesis
        unfolding l eleven lone_Slot_taken
        by (simp add: openUrlInSearchWindow_def split: prod.splits)
    qed
  qed
qed

lemma lone_run:
  "lone load env q opts n (p, s) = (p', s') \<Longrightarrow>
     \<exists>evs. run load evs \<lparr>server_of = s, tasks = [\<lparr>t_query = q, t_options = opts, at = p\<rparr>]\<rparr>
             = \<lparr>server_of = s', tasks = [\<lparr>t_query = q, t_options = opts, at = p'\<rparr>]\<rparr>"
proof (induction n arbitrary: p s)
  case 0
  then have "run load [] \<lparr>server_of = s, tasks = [\<lparr>t_query = q, t_options = opts, at = p\<rparr>]\<rparr>
             = \<lparr>server_of = s', tasks = [\<lparr>t_query = q, t_options = opts, at = p'\<rparr>]\<rparr>"
    by (simp add: run_def)
  then show ?case by blast
next
  case (Suc n)
  show ?case
  proof (cases "resume load q opts p (answer env (search_address opts q) p) s")
    case None
    with Suc.prems have "run load [] \<lparr>server_of = s, tasks = [\<lparr>t_query = q, t_options = opts, at = p\<rparr>]\<rparr>
             = \<lparr>server_of = s', tasks = [\<lparr>t_query = q, t_options = opts, at = p'\<rparr>]\<rparr>"
      by (simp add: run_def)
    then show ?thesis by blast
  next
    case (Some ps)
    obtain p1 s1 where ps: "ps = (p1, s1)" by (cases ps)
    from Some ps Suc.prems have "lone load env q opts n (p1, s1) = (p', s')" by simp
    from Suc.IH [OF this] obtain evs where
      evs: "run load evs \<lparr>server_of = s1, tasks = [\<lparr>t_query = q, t_options = opts, at = p1\<rparr>]\<rparr>
             = \<lparr>server_of = s', tasks = [\<lparr>t_query = q, t_options = opts, at = p'\<rparr>]\<rparr>" by blast
    from Some ps have
      "step load (Settle 0 (answer env (search_address opts q) p))
          \<lparr>server_of = s, tasks = [\<lparr>t_query = q, t_options = opts, at = p\<rparr>]\<rparr>
        = \<lparr>server_of = s1, tasks = [\<lparr>t_query = q, t_options = opts, at = p1\<rparr>]\<rparr>"
      by simp
    with evs have "run load (Settle 0 (answer env (search_address opts q) p) # evs)
          \<lparr>server_of = s, tasks = [\<lparr>t_query = q, t_options = opts, at = p\<rparr>]\<rparr>
        = \<lparr>server_of = s', tasks = [\<lparr>t_query = q, t_options = opts, at = p'\<rparr>]\<rparr>"
      by (simp add: run_def)
    then show ?thesis by blast
  qed
qed

text \<open>
  Whatever a call of \<^verbatim>\<open>search\<close> that runs alone returns or throws, and the fields it
  leaves, is the outcome of a run of the interleaved model with this one call.
\<close>

theorem search_is_a_run:
  assumes "search load env q opts s = Some (r, s')"
  shows "\<exists>evs. run load (Call q opts # evs) \<lparr>server_of = s, tasks = []\<rparr>
           = \<lparr>server_of = s', tasks = [\<lparr>t_query = q, t_options = opts, at = Returned r\<rparr>]\<rparr>"
proof -
  obtain p0 s0 where l: "loop_test s = (p0, s0)" by (cases "loop_test s")
  from lone_search [OF assms] l have "lone load env q opts 11 (p0, s0) = (Returned r, s')" by simp
  from lone_run [OF this] obtain evs where
    "run load evs \<lparr>server_of = s0, tasks = [\<lparr>t_query = q, t_options = opts, at = p0\<rparr>]\<rparr>
       = \<lparr>server_of = s', tasks = [\<lparr>t_query = q, t_options = opts, at = Returned r\<rparr>]\<rparr>" by blast
  with l have "run load (Call q opts # evs) \<lparr>server_of = s, tasks = []\<rparr>
       = \<lparr>server_of = s', tasks = [\<lparr>t_query = q, t_options = opts, at = Returned r\<rparr>]\<rparr>"
    by (simp add: run_def)
  then show ?thesis by blast
qed

end
